theory Spec2Isabelle
  imports Main
begin

section \<open>The content-item tree engine of golden-layout\<close>

text \<open>
  The development embeds \<^verbatim>\<open>src/js_es6/items/AbstractContentItem.ts\<close> and the default
  table of \<^verbatim>\<open>src/js_es6/config/UserConfig.ts\<close>. Objects that the source mutates
  through aliases (items and their config objects) live in an explicit store and are
  named by their address; the read-only traversals work on the subtree below an item,
  taken as a value.
\<close>

subsection \<open>Errors and arrays\<close>

text \<open>
  Every \<^verbatim>\<open>throw\<close> of the source is a value. \<^verbatim>\<open>TypeError\<close> is what JavaScript
  raises on a property access on \<^verbatim>\<open>null\<close> or \<^verbatim>\<open>undefined\<close>. \<^verbatim>\<open>NoSuchObject\<close> has
  no counterpart in JavaScript, where every reference denotes an object: it is the
  result of an operation on an address outside the store.
\<close>

datatype error =
    UnknownContentItem
  | OldChildNotChild
  | IdNotFound
  | TypeError
  | NoSuchObject

text \<open>
  \<^verbatim>\<open>Array.prototype.indexOf\<close>: the first index holding the value, or -1.

  Modelled from the spec: \<^verbatim>\<open>indexOf(needle, haystack)\<close> of \<^verbatim>\<open>utils/utils\<close> is not
  under src/; membership in the sequence is decided by \<^verbatim>\<open>indexOf arr needle \<noteq> -1\<close>,
  the same function with the arguments swapped.
\<close>

fun indexOf :: "'a list \<Rightarrow> 'a \<Rightarrow> int" where
  "indexOf [] x = - 1"
| "indexOf (y # ys) x =
     (if y = x then 0
      else (let i = indexOf ys x in if i = - 1 then - 1 else i + 1))"

text \<open>
  \<^verbatim>\<open>arr.splice(start, deleteCount, ...items)\<close>, returning the array after the call:
  a negative start counts from the end, a start beyond the end is the end.
\<close>

definition splice_array :: "'a list \<Rightarrow> int \<Rightarrow> nat \<Rightarrow> 'a list \<Rightarrow> 'a list" where
  "splice_array xs start deleteCount ins =
     (let len = int (length xs);
          st = (if start < 0 then max (len + start) 0 else min start len);
          dc = min (int deleteCount) (len - st)
      in take (nat st) xs @ ins @ drop (nat st + nat dc) xs)"

subsection \<open>Configuration objects\<close>

datatype itemType = root | row | column | stack | component | react_component

text \<open>The \<^verbatim>\<open>id\<close> of a config: absent, a string, or an array of strings.\<close>

datatype idValue = Undefined | IdString string | IdArray "string list"

text \<open>
  \<^verbatim>\<open>content\<close> is the array of the children's config objects, held by address;
  \<^verbatim>\<open>None\<close> is \<^verbatim>\<open>undefined\<close>.
\<close>

record config =
  type :: itemType
  content :: "nat list option"
  width :: int
  height :: int
  id_cfg :: idValue
  isClosable :: bool
  reorderEnabled :: bool
  title :: string
  activeItemIndex :: int

text \<open>
  \<^verbatim>\<open>UserItemConfig.defaults\<close> (UserConfig.ts), and the line
  \<^verbatim>\<open>id: user.id ?? defaults.id\<close> that every branch of \<^verbatim>\<open>resolveDefaults\<close> has.
\<close>

definition defaults :: config where
  "defaults = \<lparr> type = stack, content = Some [], width = 50, height = 50,
      id_cfg = IdString '''', isClosable = True, reorderEnabled = True,
      title = '''', activeItemIndex = - 1 \<rparr>"

definition resolveDefaults_id :: "idValue option \<Rightarrow> idValue" where
  "resolveDefaults_id user_id =
     (case user_id of None \<Rightarrow> id_cfg defaults | Some v \<Rightarrow> v)"

subsection \<open>Id subsystem\<close>

text \<open>
  \<^verbatim>\<open>!this.config.id\<close>: \<^verbatim>\<open>undefined\<close> and the empty string are falsy, every array
  is truthy (the empty one too).
\<close>

definition falsy :: "idValue \<Rightarrow> bool" where
  "falsy v = (case v of Undefined \<Rightarrow> True | IdString s \<Rightarrow> s = [] | IdArray xs \<Rightarrow> False)"

definition hasId :: "config \<Rightarrow> string \<Rightarrow> bool" where
  "hasId cfg i =
     (if falsy (id_cfg cfg) then False
      else (case id_cfg cfg of
              IdString s \<Rightarrow> s = i
            | IdArray xs \<Rightarrow> indexOf xs i \<noteq> - 1
            | Undefined \<Rightarrow> False))"

definition addId :: "config \<Rightarrow> string \<Rightarrow> config" where
  "addId cfg i =
     (if hasId cfg i then cfg
      else if falsy (id_cfg cfg) then cfg\<lparr>id_cfg := IdString i\<rparr>
      else (case id_cfg cfg of
              IdString s \<Rightarrow> cfg\<lparr>id_cfg := IdArray [s, i]\<rparr>
            | IdArray xs \<Rightarrow> cfg\<lparr>id_cfg := IdArray (xs @ [i])\<rparr>
            | Undefined \<Rightarrow> cfg))"

text \<open>
  An exception carries the config as it is when the exception is raised, so that what a
  failing call has changed can be stated.
\<close>

definition removeId :: "config \<Rightarrow> string \<Rightarrow> (error \<times> config) + config" where
  "removeId cfg i =
     (if \<not> hasId cfg i then Inl (IdNotFound, cfg)
      else (case id_cfg cfg of
              IdString s \<Rightarrow> Inr (cfg\<lparr>id_cfg := Undefined\<rparr>)
            | IdArray xs \<Rightarrow> Inr (cfg\<lparr>id_cfg := IdArray (splice_array xs (indexOf xs i) 1 [])\<rparr>)
            | Undefined \<Rightarrow> Inr cfg))"

text \<open>Invariant I4: the id is absent, a string, or a sequence that is not empty.\<close>

definition I4 :: "config \<Rightarrow> bool" where
  "I4 cfg = (case id_cfg cfg of IdArray xs \<Rightarrow> xs \<noteq> [] | _ \<Rightarrow> True)"

subsection \<open>The subtree below an item, and the traversals\<close>

text \<open>
  An item with the items below it: its address, its config and its
  \<^verbatim>\<open>contentItems\<close>, in order.
\<close>

datatype subtree =
  Subtree (node: nat) (node_config: config) (node_contentItems: "subtree list")

text \<open>
  \<^verbatim>\<open>callDownwards\<close>. The result is the sequence of the invocations
  \<^verbatim>\<open>this[functionName](...)\<close> in the order they are made. \<^verbatim>\<open>bottomUp\<close> and
  \<^verbatim>\<open>skipSelf\<close> are only compared with \<^verbatim>\<open>true\<close>, so \<^verbatim>\<open>undefined\<close> is
  \<^verbatim>\<open>False\<close>; the recursive call passes three arguments, which leaves \<^verbatim>\<open>skipSelf\<close>
  undefined. The top-down branch of the source has two statements, each of which
  invokes the method.
\<close>

datatype 'a invocation = Invoke nat string "'a list"

fun callDownwards ::
    "subtree \<Rightarrow> string \<Rightarrow> 'a list option \<Rightarrow> bool \<Rightarrow> bool \<Rightarrow> 'a invocation list"
  and callDownwards_loop ::
    "subtree list \<Rightarrow> string \<Rightarrow> 'a list option \<Rightarrow> bool \<Rightarrow> 'a invocation list"
where
  "callDownwards (Subtree this cfg cs) functionName functionArguments bottomUp skipSelf =
     (let args = (case functionArguments of None \<Rightarrow> [] | Some a \<Rightarrow> a) in
        (if \<not> bottomUp \<and> \<not> skipSelf
         then [Invoke this functionName args, Invoke this functionName args] else [])
        @ callDownwards_loop cs functionName functionArguments bottomUp
        @ (if bottomUp \<and> \<not> skipSelf then [Invoke this functionName args] else []))"
| "callDownwards_loop [] functionName functionArguments bottomUp = []"
| "callDownwards_loop (c # cs) functionName functionArguments bottomUp =
     callDownwards c functionName functionArguments bottomUp False
     @ callDownwards_loop cs functionName functionArguments bottomUp"

text \<open>The nodes of a subtree, parents first and parents last.\<close>

fun preorder :: "subtree \<Rightarrow> nat list" where
  "preorder (Subtree n cfg cs) = n # concat (map preorder cs)"

fun postorder :: "subtree \<Rightarrow> nat list" where
  "postorder (Subtree n cfg cs) = concat (map postorder cs) @ [n]"

text \<open>
  \<^verbatim>\<open>getItemsByFilter\<close>. The closure \<^verbatim>\<open>next\<close> pushes onto \<^verbatim>\<open>result\<close>; the state
  threaded here is \<^verbatim>\<open>result\<close> together with the items the filter has been applied
  to so far, in the order of the applications.
\<close>

fun next_fn ::
    "(subtree \<Rightarrow> bool) \<Rightarrow> subtree \<Rightarrow> subtree list \<times> subtree list \<Rightarrow> subtree list \<times> subtree list"
  and next_loop ::
    "(subtree \<Rightarrow> bool) \<Rightarrow> subtree list \<Rightarrow> subtree list \<times> subtree list \<Rightarrow> subtree list \<times> subtree list"
where
  "next_fn filter_fn (Subtree n cfg cs) st = next_loop filter_fn cs st"
| "next_loop filter_fn [] st = st"
| "next_loop filter_fn (c # cs) (result, tested) =
     next_loop filter_fn cs
       (next_fn filter_fn c
          (if filter_fn c then result @ [c] else result, tested @ [c]))"

definition getItemsByFilter :: "subtree \<Rightarrow> (subtree \<Rightarrow> bool) \<Rightarrow> subtree list" where
  "getItemsByFilter this filter_fn = fst (next_fn filter_fn this ([], []))"

definition testedByFilter :: "subtree \<Rightarrow> (subtree \<Rightarrow> bool) \<Rightarrow> subtree list" where
  "testedByFilter this filter_fn = snd (next_fn filter_fn this ([], []))"

definition getItemsById :: "subtree \<Rightarrow> string \<Rightarrow> subtree list" where
  "getItemsById this i =
     getItemsByFilter this
       (\<lambda>item. case id_cfg (node_config item) of
                 IdArray xs \<Rightarrow> indexOf xs i \<noteq> - 1
               | v \<Rightarrow> v = IdString i)"

text \<open>
  The descendants of an item in pre-order, after the words of the specification: each
  child, followed by its own descendants, child after child in the order of
  \<^verbatim>\<open>contentItems\<close>.
\<close>

fun descendants :: "subtree \<Rightarrow> subtree list" where
  "descendants (Subtree n cfg cs) = concat (map (\<lambda>c. c # descendants c) cs)"

subsection \<open>Items and the store\<close>

text \<open>
  The fields of \<^verbatim>\<open>AbstractContentItem\<close> that the operations below read or write.
  \<^verbatim>\<open>config\<close>, \<^verbatim>\<open>contentItems\<close> and \<^verbatim>\<open>parent\<close> hold addresses. \<^verbatim>\<open>isRoot\<close> is the
  flag of that name and \<^verbatim>\<open>instanceofRoot\<close> the test \<^verbatim>\<open>this instanceof Root\<close>: the
  source uses the one in \<^verbatim>\<open>propagateEvent\<close> and the other in \<^verbatim>\<open>removeChild\<close>.
  \<^verbatim>\<open>pendingEventPropagations\<close> is a \<^verbatim>\<open>Record\<close> object that only ever
  receives \<^verbatim>\<open>true\<close> and \<^verbatim>\<open>false\<close>.
\<close>

record item =
  config :: nat
  contentItems :: "nat list"
  parent :: "nat option"
  isInitialised :: bool
  isRoot :: bool
  instanceofRoot :: bool
  pendingEventPropagations :: "string \<Rightarrow> bool option"
  throttledEvents :: "string list"

text \<open>
  The field initialisers of the constructor, for the config object at \<^verbatim>\<open>cfg\<close> and
  the parent \<^verbatim>\<open>p\<close>; the children are created by the factory of the layout manager.
\<close>

definition newItem :: "nat \<Rightarrow> nat option \<Rightarrow> item" where
  "newItem cfg p =
     \<lparr> config = cfg, contentItems = [], parent = p, isInitialised = False,
       isRoot = False, instanceofRoot = False,
       pendingEventPropagations = (\<lambda>name. None),
       throttledEvents = [''stateChanged''] \<rparr>"

record bubblingEvent =
  name_ev :: string
  origin :: nat
  isPropagationStopped :: bool

text \<open>
  What \<^verbatim>\<open>emit\<close> passes to a listener as the event: a \<^verbatim>\<open>BubblingEvent\<close> or
  anything else (\<^verbatim>\<open>setTitle\<close> emits \<^verbatim>\<open>stateChanged\<close> with no event at all).
\<close>

datatype event = BubblingEvent bubblingEvent | PlainEvent

text \<open>
  The second argument of \<^verbatim>\<open>layoutManager.emit\<close>: the immediate path passes
  \<^verbatim>\<open>event.origin\<close>, the deferred one the event.
\<close>

datatype payload = Origin nat | Event bubblingEvent

text \<open>
  Calls into the rendering side and into hooks that subclasses override. They are
  recorded in the order they are made and not expanded: the base \<^verbatim>\<open>_$destroy\<close>
  emits two events around \<^verbatim>\<open>element.remove()\<close>, \<^verbatim>\<open>setSize\<close> is abstract,
  \<^verbatim>\<open>processChildReplaced\<close> is empty in the base class.
\<close>

datatype effect =
    Destroy nat
  | Init nat
  | CallDownwards nat string bool bool
  | DomReplaceChild nat nat
  | ProcessChildReplaced nat nat nat

record state =
  items :: "item list"
  configs :: "config list"
  effects :: "effect list"
  animFrames :: "(nat \<times> string \<times> bubblingEvent) list"
  layoutManager_emitted :: "(string \<times> payload) list"

text \<open>An address denotes an item of the store whose config object is in the store.\<close>

definition valid :: "state \<Rightarrow> nat \<Rightarrow> bool" where
  "valid s r = (r < length (items s) \<and> config (items s ! r) < length (configs s))"

definition set_contentItems :: "state \<Rightarrow> nat \<Rightarrow> nat list \<Rightarrow> state" where
  "set_contentItems s r cs = s\<lparr>items := (items s)[r := (items s ! r)\<lparr>contentItems := cs\<rparr>]\<rparr>"

definition set_parent :: "state \<Rightarrow> nat \<Rightarrow> nat option \<Rightarrow> state" where
  "set_parent s r p = s\<lparr>items := (items s)[r := (items s ! r)\<lparr>parent := p\<rparr>]\<rparr>"

definition set_content :: "state \<Rightarrow> nat \<Rightarrow> nat list \<Rightarrow> state" where
  "set_content s c cs = s\<lparr>configs := (configs s)[c := (configs s ! c)\<lparr>content := Some cs\<rparr>]\<rparr>"

definition perform :: "state \<Rightarrow> effect list \<Rightarrow> state" where
  "perform s es = s\<lparr>effects := effects s @ es\<rparr>"

text \<open>
  \<^verbatim>\<open>_$init\<close>: \<^verbatim>\<open>setSize\<close>, the children's elements appended, \<^verbatim>\<open>isInitialised\<close>
  set, two events emitted; all but the flag is the recorded call.
\<close>

definition init :: "state \<Rightarrow> nat \<Rightarrow> state" where
  "init s r =
     (perform s [Init r])\<lparr>items := (items s)[r := (items s ! r)\<lparr>isInitialised := True\<rparr>]\<rparr>"

text \<open>
  The subtree below an item of the store, for the traversals: the item with its config
  and, in order, the subtrees of its \<^verbatim>\<open>contentItems\<close>. It is read to a bounded depth;
  below a well-formed item of height at most \<^verbatim>\<open>depth\<close> the result is its tree.
\<close>

fun subtree_at :: "nat \<Rightarrow> state \<Rightarrow> nat \<Rightarrow> subtree option" where
  "subtree_at 0 s r = None"
| "subtree_at (Suc depth) s r =
     (if valid s r
      then map_option (Subtree r (configs s ! config (items s ! r)))
             (those (map (subtree_at depth s) (contentItems (items s ! r))))
      else None)"

subsection \<open>Mutation engine\<close>

text \<open>
  The number of entries of all \<^verbatim>\<open>contentItems\<close> arrays of the store. Every call of
  \<^verbatim>\<open>removeChild\<close> that goes on to the parent has removed one entry before, which is
  why the cascade ends in any store.
\<close>

definition entries :: "state \<Rightarrow> nat" where
  "entries s = sum_list (map (\<lambda>it. length (contentItems it)) (items s))"

text \<open>Facts about \<^verbatim>\<open>indexOf\<close> and \<^verbatim>\<open>splice\<close> that the termination of \<^verbatim>\<open>removeChild\<close> needs.\<close>

lemma indexOf_ge: "- 1 \<le> indexOf xs x"
  by (induction xs) (auto simp: Let_def)

lemma indexOf_absent: "(indexOf xs x = - 1) = (x \<notin> set xs)"
proof (induction xs)
  case Nil
  show ?case by simp
next
  case (Cons y ys)
  have "- 1 \<le> indexOf ys x" by (rule indexOf_ge)
  with Cons show ?case by (auto simp: Let_def)
qed

lemma indexOf_bound: "x \<in> set xs \<Longrightarrow> 0 \<le> indexOf xs x \<and> nat (indexOf xs x) < length xs"
proof (induction xs)
  case Nil
  then show ?case by simp
next
  case (Cons y ys)
  show ?case
  proof (cases "y = x")
    case True
    then show ?thesis by simp
  next
    case False
    with Cons.prems have "x \<in> set ys" by simp
    with Cons.IH have "0 \<le> indexOf ys x \<and> nat (indexOf ys x) < length ys" by simp
    with False show ?thesis by (auto simp: Let_def)
  qed
qed

lemma indexOf_nth: "x \<in> set xs \<Longrightarrow> xs ! nat (indexOf xs x) = x"
proof (induction xs)
  case Nil
  then show ?case by simp
next
  case (Cons y ys)
  show ?case
  proof (cases "y = x")
    case True
    then show ?thesis by simp
  next
    case False
    with Cons.prems have mem: "x \<in> set ys" by simp
    from indexOf_bound[OF mem] have "0 \<le> indexOf ys x" by simp
    with False Cons.IH[OF mem] show ?thesis by (auto simp: Let_def nat_add_distrib)
  qed
qed

lemma splice_delete1:
  assumes "0 \<le> i" and "nat i < length xs"
  shows "splice_array xs i (Suc 0) [] = take (nat i) xs @ drop (Suc (nat i)) xs"
proof -
  from assms have a: "min i (int (length xs)) = i" by linarith
  from assms have b: "min 1 (int (length xs) - i) = 1" by linarith
  from assms(1) a b show ?thesis by (simp add: splice_array_def Let_def)
qed

lemma splice_delete1_length:
  assumes "0 \<le> i" and "nat i < length xs"
  shows "Suc (length (splice_array xs i (Suc 0) [])) = length xs"
proof -
  from assms(2) have "min (length xs) (nat i) = nat i" by simp
  with assms show ?thesis by (simp add: splice_delete1)
qed

lemma sum_list_update_less:
  fixes f :: "'a \<Rightarrow> nat"
  assumes "i < length xs" and "f y < f (xs ! i)"
  shows "sum_list (map f (xs[i := y])) < sum_list (map f xs)"
  using assms
proof (induction xs arbitrary: i)
  case Nil
  then show ?case by simp
next
  case (Cons x xs)
  then show ?case by (cases i) auto
qed

lemma entries_splice:
  assumes "this < length (items s)" and "0 \<le> i" and "nat i < length (contentItems (items s ! this))"
  shows "entries (set_contentItems s this (splice_array (contentItems (items s ! this)) i (Suc 0) [])) < entries s"
proof -
  have "length (splice_array (contentItems (items s ! this)) i (Suc 0) []) < length (contentItems (items s ! this))"
    using assms(2,3) by (simp add: splice_array_def Let_def)
  then show ?thesis
    unfolding entries_def set_contentItems_def using assms(1)
    by (simp add: sum_list_update_less)
qed


lemma items_perform: "items (perform s es) = items s"
  by (simp add: perform_def)

lemma removeChild_decreases:
  assumes v: "valid s this"
    and found: "indexOf (contentItems (items s ! this)) c \<noteq> - 1"
    and same: "items s1 = items s"
  shows "entries (set_content
           (set_contentItems s1 this
              (splice_array (contentItems (items s1 ! this))
                 (indexOf (contentItems (items s ! this)) c) 1 []))
           a cs')
         < entries s"
proof -
  from found have mem: "c \<in> set (contentItems (items s ! this))"
    by (simp add: indexOf_absent)
  from v have len: "this < length (items s)" by (simp add: valid_def)
  from indexOf_bound[OF mem] len
  have "entries (set_contentItems s this
           (splice_array (contentItems (items s ! this))
              (indexOf (contentItems (items s ! this)) c) (Suc 0) [])) < entries s"
    by (intro entries_splice) simp_all
  then show ?thesis
    using same by (simp add: entries_def set_content_def set_contentItems_def)
qed

text \<open>
  \<^verbatim>\<open>removeChild\<close>. An exception carries the store as it is when the exception is
  raised. \<^verbatim>\<open>this.config.content.splice\<close> raises \<^verbatim>\<open>TypeError\<close> when \<^verbatim>\<open>content\<close>
  is undefined, after the first \<^verbatim>\<open>splice\<close>; so does \<^verbatim>\<open>this.parent.removeChild\<close>
  when \<^verbatim>\<open>parent\<close> is \<^verbatim>\<open>null\<close>. The call on the parent leaves \<^verbatim>\<open>keepChild\<close> at
  its default.
\<close>

function removeChild :: "state \<Rightarrow> nat \<Rightarrow> nat \<Rightarrow> bool \<Rightarrow> (error \<times> state) + state" where
  "removeChild s this contentItem keepChild =
     (if \<not> valid s this then Inl (NoSuchObject, s)
      else
        let index = indexOf (contentItems (items s ! this)) contentItem in
        if index = - 1 then Inl (UnknownContentItem, s)
        else
          let s1 = (if \<not> keepChild
                    then perform s [Destroy (contentItems (items s ! this) ! nat index),
                                    CallDownwards (contentItems (items s ! this) ! nat index) ''_$destroy'' True True]
                    else s);
              s2 = set_contentItems s1 this (splice_array (contentItems (items s1 ! this)) index 1 [])
          in
            (case content (configs s2 ! config (items s2 ! this)) of
               None \<Rightarrow> Inl (TypeError, s2)
             | Some cs \<Rightarrow>
                 let s3 = set_content s2 (config (items s2 ! this)) (splice_array cs index 1 []) in
                 if 0 < length (contentItems (items s3 ! this))
                 then Inr (perform s3 [CallDownwards this ''setSize'' False False])
                 else if \<not> instanceofRoot (items s3 ! this)
                         \<and> isClosable (configs s3 ! config (items s3 ! this))
                 then (case parent (items s3 ! this) of
                         None \<Rightarrow> Inl (TypeError, s3)
                       | Some p \<Rightarrow> removeChild s3 p this False)
                 else Inr s3))"
  by pat_completeness auto
termination
  apply (relation "measure (\<lambda>(s, this, contentItem, keepChild). entries s)")
   apply simp
  apply (simp only: in_measure prod.case)
  apply hypsubst_thin
  apply (rule removeChild_decreases)
    apply simp
   apply simp
  apply (simp add: items_perform)
  done

declare removeChild.simps [simp del]

text \<open>
  The store that a call leaves behind, returned or raised with the exception.
\<close>

definition state_of :: "(error \<times> state) + state \<Rightarrow> state" where
  "state_of r = (case r of Inl (e, s) \<Rightarrow> s | Inr s \<Rightarrow> s)"

text \<open>
  The store after \<^verbatim>\<open>removeChild\<close> has taken the child out of \<^verbatim>\<open>this\<close> (up to the
  second \<^verbatim>\<open>splice\<close>), when \<^verbatim>\<open>config.content\<close> is the array \<^verbatim>\<open>cs\<close>.
\<close>

definition detached :: "state \<Rightarrow> nat \<Rightarrow> nat \<Rightarrow> bool \<Rightarrow> nat list \<Rightarrow> state" where
  "detached s this c keepChild cs =
     (let index = indexOf (contentItems (items s ! this)) c;
          s1 = (if keepChild then s
                else perform s [Destroy c, CallDownwards c ''_$destroy'' True True])
      in set_content
           (set_contentItems s1 this (splice_array (contentItems (items s ! this)) index 1 []))
           (config (items s ! this)) (splice_array cs index 1 []))"

text \<open>
  \<^verbatim>\<open>addChild\<close>. An omitted index is \<^verbatim>\<open>None\<close>. The third parameter
  \<^verbatim>\<open>suspendResize\<close> is not used by the base class.
\<close>

definition addChild :: "state \<Rightarrow> nat \<Rightarrow> nat \<Rightarrow> int option \<Rightarrow> (error \<times> state) + state" where
  "addChild s this contentItem index_opt =
     (if valid s this \<and> valid s contentItem
      then
        let index = (case index_opt of
                       None \<Rightarrow> int (length (contentItems (items s ! this)))
                     | Some i \<Rightarrow> i);
            s1 = set_contentItems s this
                   (splice_array (contentItems (items s ! this)) index 0 [contentItem]);
            cs = (case content (configs s1 ! config (items s1 ! this)) of
                    None \<Rightarrow> []
                  | Some cs \<Rightarrow> cs);
            s2 = set_content s1 (config (items s1 ! this))
                   (splice_array cs index 0 [config (items s1 ! contentItem)]);
            s3 = set_parent s2 contentItem (Some this)
        in
          if isInitialised (items s3 ! this) \<and> \<not> isInitialised (items s3 ! contentItem)
          then Inr (init s3 contentItem)
          else Inr s3
      else Inl (NoSuchObject, s))"

text \<open>
  \<^verbatim>\<open>replaceChild\<close>. The element of the old child is read before the check and
  replaced in the document after it; the read changes nothing and the replacement is a
  recorded call.

  Modelled from the spec: \<^verbatim>\<open>_$normalizeContentItem\<close> of the layout manager is not
  under src/. It is idempotent on constructed nodes; \<^verbatim>\<open>newChild\<close> is an item of the
  store here, which normalisation returns as it is.
\<close>

definition replaceChild ::
    "state \<Rightarrow> nat \<Rightarrow> nat \<Rightarrow> nat \<Rightarrow> bool \<Rightarrow> (error \<times> state) + state" where
  "replaceChild s this oldChild newChild destroyOldChild =
     (if valid s this \<and> valid s oldChild \<and> valid s newChild
      then
        let index = indexOf (contentItems (items s ! this)) oldChild in
        if index = - 1 then Inl (OldChildNotChild, s)
        else
          let s1 = perform s [DomReplaceChild newChild oldChild];
              s2 = (if destroyOldChild
                    then perform (set_parent s1 oldChild None) [Destroy oldChild]
                    else s1);
              s3 = set_contentItems s2 this
                     ((contentItems (items s2 ! this))[nat index := newChild]);
              s4 = set_parent s3 newChild (Some this);
              s5 = perform s4 [ProcessChildReplaced this (nat index) newChild];
              s6 = (if isInitialised (items s5 ! this) \<and> \<not> isInitialised (items s5 ! newChild)
                    then init s5 newChild
                    else s5)
          in Inr (perform s6 [CallDownwards this ''setSize'' False False])
      else Inl (NoSuchObject, s))"

text \<open>
  Invariant I3 at every item of the store: \<^verbatim>\<open>config.content\<close> lists the config
  objects of the \<^verbatim>\<open>contentItems\<close>, one for one and in their order. An item
  constructed from a config without \<^verbatim>\<open>content\<close> has no children.
\<close>

definition I3_at :: "state \<Rightarrow> item \<Rightarrow> bool" where
  "I3_at s it =
     (config it < length (configs s) \<and>
      (case content (configs s ! config it) of
         None \<Rightarrow> contentItems it = []
       | Some cs \<Rightarrow> cs = map (\<lambda>c. config (items s ! c)) (contentItems it)))"

definition I3 :: "state \<Rightarrow> bool" where
  "I3 s = list_all (I3_at s) (items s)"

text \<open>Every item has a config object of its own: no two items share one.\<close>

definition own_configs :: "state \<Rightarrow> bool" where
  "own_configs s = distinct (map config (items s))"

subsection \<open>Event bubbling and batching\<close>

definition scheduleEventPropagationToLayoutManager ::
    "state \<Rightarrow> nat \<Rightarrow> string \<Rightarrow> bubblingEvent \<Rightarrow> state" where
  "scheduleEventPropagationToLayoutManager s this name event =
     (if indexOf (throttledEvents (items s ! this)) name = - 1
      then s\<lparr>layoutManager_emitted := layoutManager_emitted s @ [(name, Origin (origin event))]\<rparr>
      else if pendingEventPropagations (items s ! this) name \<noteq> Some True
      then s\<lparr>items := (items s)[this := (items s ! this)
                  \<lparr>pendingEventPropagations :=
                     (pendingEventPropagations (items s ! this))(name := Some True)\<rparr>],
              animFrames := animFrames s @ [(this, name, event)]\<rparr>
      else s)"

definition propagateEventToLayoutManager ::
    "state \<Rightarrow> nat \<Rightarrow> string \<Rightarrow> bubblingEvent \<Rightarrow> state" where
  "propagateEventToLayoutManager s this name event =
     s\<lparr>items := (items s)[this := (items s ! this)
            \<lparr>pendingEventPropagations :=
               (pendingEventPropagations (items s ! this))(name := Some False)\<rparr>],
       layoutManager_emitted := layoutManager_emitted s @ [(name, Event event)]\<rparr>"

text \<open>
  \<^verbatim>\<open>propagateEvent\<close>, the listener that the constructor subscribes to every event of
  the item. The walk up the \<^verbatim>\<open>parent\<close> links does not end when they form a cycle;
  \<^verbatim>\<open>None\<close> is a call that does not return.

  Modelled from the spec: \<^verbatim>\<open>EventEmitter\<close> is not under src/. An event emitted at an
  item (\<^verbatim>\<open>emit\<close>, \<^verbatim>\<open>emitUnknown\<close>) reaches the catch-all listener of that item; no
  other listener is subscribed.
\<close>

partial_function (option) propagateEvent ::
    "state \<Rightarrow> nat \<Rightarrow> string \<Rightarrow> event \<Rightarrow> ((error \<times> state) + state) option" where
  "propagateEvent s this name event =
     (if \<not> this < length (items s) then Some (Inl (NoSuchObject, s))
      else
        (case event of
           PlainEvent \<Rightarrow> Some (Inr s)
         | BubblingEvent e \<Rightarrow>
             if \<not> isPropagationStopped e \<and> isInitialised (items s ! this)
             then
               (case parent (items s ! this) of
                  Some p \<Rightarrow>
                    if \<not> isRoot (items s ! this)
                    then propagateEvent s p name event
                    else Some (Inr (scheduleEventPropagationToLayoutManager s this name e))
                | None \<Rightarrow> Some (Inr (scheduleEventPropagationToLayoutManager s this name e)))
             else Some (Inr s)))"

definition emitBubblingEvent ::
    "state \<Rightarrow> nat \<Rightarrow> string \<Rightarrow> ((error \<times> state) + state) option" where
  "emitBubblingEvent s this name =
     propagateEvent s this name
       (BubblingEvent \<lparr> name_ev = name, origin = this, isPropagationStopped = False \<rparr>)"

text \<open>
  Modelled from the spec: \<^verbatim>\<open>animFrame\<close> and \<^verbatim>\<open>fnBind\<close> of \<^verbatim>\<open>utils/utils\<close> are not
  under src/. \<^verbatim>\<open>animFrame\<close> defers a callback to the next animation frame; the frame
  runs the callbacks scheduled so far, each once, in the order of their scheduling.
\<close>

definition animationFrame :: "state \<Rightarrow> state" where
  "animationFrame s =
     foldl (\<lambda>s' (this, name, event). propagateEventToLayoutManager s' this name event)
       (s\<lparr>animFrames := []\<rparr>) (animFrames s)"

text \<open>A burst: \<^verbatim>\<open>emitBubblingEvent\<close> called at one item for each name in turn.\<close>

fun emitAll :: "state \<Rightarrow> nat \<Rightarrow> string list \<Rightarrow> ((error \<times> state) + state) option" where
  "emitAll s this [] = Some (Inr s)"
| "emitAll s this (name # names) =
     (case emitBubblingEvent s this name of
        None \<Rightarrow> None
      | Some (Inl e) \<Rightarrow> Some (Inl e)
      | Some (Inr s') \<Rightarrow> emitAll s' this names)"

text \<open>
  The items from which an event reaches the item \<^verbatim>\<open>t\<close> that hands it to the layout
  manager: every item on the way is initialised, and \<^verbatim>\<open>t\<close> is the first that is
  flagged as root or has no parent.
\<close>

inductive bubblesTo :: "state \<Rightarrow> nat \<Rightarrow> nat \<Rightarrow> bool" where
  top: "this < length (items s) \<Longrightarrow> isInitialised (items s ! this) \<Longrightarrow>
        isRoot (items s ! this) \<or> parent (items s ! this) = None \<Longrightarrow>
        bubblesTo s this this"
| up: "this < length (items s) \<Longrightarrow> isInitialised (items s ! this) \<Longrightarrow>
       \<not> isRoot (items s ! this) \<Longrightarrow> parent (items s ! this) = Some p \<Longrightarrow>
       bubblesTo s p t \<Longrightarrow> bubblesTo s this t"

code_pred bubblesTo .

text \<open>
  What \<^verbatim>\<open>propagateEvent\<close> reads of the items: the \<^verbatim>\<open>parent\<close> link and the two
  flags.
\<close>

definition links :: "state \<Rightarrow> (nat option \<times> bool \<times> bool) list" where
  "links s = map (\<lambda>it. (parent it, isRoot it, isInitialised it)) (items s)"

subsection \<open>Geometry\<close>

record 'n offset =
  offset_left :: 'n
  offset_top :: 'n

record 'n widthAndHeight =
  wh_width :: 'n
  wh_height :: 'n

record 'n area =
  x1 :: 'n
  y1 :: 'n
  x2 :: 'n
  y2 :: 'n
  surface :: 'n
  contentItem_area :: nat

text \<open>
  \<^verbatim>\<open>_$getArea\<close>. The two helpers of \<^verbatim>\<open>utils/jquery-legacy\<close> are not under src/
  and are parameters; they receive \<^verbatim>\<open>element || this.element\<close>, which is
  \<^verbatim>\<open>None\<close> when neither is there. \<^verbatim>\<open>Inr None\<close> is the result \<^verbatim>\<open>null\<close>. The
  numbers are of any type with an addition and a multiplication.
\<close>

definition getArea ::
    "('e option \<Rightarrow> error + 'n offset) \<Rightarrow> ('e option \<Rightarrow> error + 'n widthAndHeight) \<Rightarrow>
     nat \<Rightarrow> 'e option \<Rightarrow> 'e option \<Rightarrow> error + ('n::{plus,times}) area option" where
  "getArea getJQueryOffset getJQueryWidthAndHeight this this_element element =
     (let element = (case element of Some e \<Rightarrow> Some e | None \<Rightarrow> this_element) in
      case getJQueryOffset element of
        Inl err \<Rightarrow> Inl err
      | Inr offset \<Rightarrow>
          (case getJQueryWidthAndHeight element of
             Inl err \<Rightarrow> Inl err
           | Inr widthAndHeight \<Rightarrow>
               Inr (Some \<lparr> x1 = offset_left offset,
                           y1 = offset_top offset,
                           x2 = offset_left offset + wh_width widthAndHeight,
                           y2 = offset_top offset + wh_height widthAndHeight,
                           surface = wh_width widthAndHeight * wh_height widthAndHeight,
                           contentItem_area = this \<rparr>)))"

text \<open>
  Modelled from the spec: \<^verbatim>\<open>getJQueryOffset\<close> and \<^verbatim>\<open>getJQueryWidthAndHeight\<close> are
  not under src/. A surface has an origin offset, a width and a height, which the
  helpers read; reading them from no surface is the \<^verbatim>\<open>TypeError\<close> of a property
  access on \<^verbatim>\<open>undefined\<close>.
\<close>

record 'n surfaceElement =
  at_left :: 'n
  at_top :: 'n
  extent_width :: 'n
  extent_height :: 'n

definition getJQueryOffset :: "'n surfaceElement option \<Rightarrow> error + 'n offset" where
  "getJQueryOffset element =
     (case element of
        None \<Rightarrow> Inl TypeError
      | Some e \<Rightarrow> Inr \<lparr> offset_left = at_left e, offset_top = at_top e \<rparr>)"

definition getJQueryWidthAndHeight :: "'n surfaceElement option \<Rightarrow> error + 'n widthAndHeight" where
  "getJQueryWidthAndHeight element =
     (case element of
        None \<Rightarrow> Inl TypeError
      | Some e \<Rightarrow> Inr \<lparr> wh_width = extent_width e, wh_height = extent_height e \<rparr>)"

subsection \<open>The example layout of the specification\<close>

text \<open>
  root (0), row (1, closable), stack (2, closable) with one component (3), each the
  only child of the one before; and a component (4) that is in no tree yet. Every item
  has the config object at its own address, all but the last are initialised.
\<close>

definition example_items :: "item list" where
  "example_items =
     [ (newItem 0 None)\<lparr>contentItems := [1], isInitialised := True,
                         isRoot := True, instanceofRoot := True\<rparr>,
       (newItem 1 (Some 0))\<lparr>contentItems := [2], isInitialised := True\<rparr>,
       (newItem 2 (Some 1))\<lparr>contentItems := [3], isInitialised := True\<rparr>,
       (newItem 3 (Some 2))\<lparr>isInitialised := True\<rparr>,
       newItem 4 None ]"

definition example_configs :: "config list" where
  "example_configs =
     [ defaults\<lparr>type := root, content := Some [1]\<rparr>,
       defaults\<lparr>type := row, content := Some [2]\<rparr>,
       defaults\<lparr>type := stack, content := Some [3]\<rparr>,
       defaults\<lparr>type := component\<rparr>,
       defaults\<lparr>type := component\<rparr> ]"

definition example_layout :: state where
  "example_layout =
     \<lparr> items = example_items, configs = example_configs, effects = [],
       animFrames = [], layoutManager_emitted = [] \<rparr>"

text \<open>
  The example layout after the component 3 has emitted \<^verbatim>\<open>stateChanged\<close> once: the
  propagation is pending at the root, where the event arrived, and one callback waits
  for the animation frame.
\<close>

definition example_pending :: state where
  "example_pending =
     example_layout\<lparr>items := (items example_layout)[0 := (items example_layout ! 0)
          \<lparr>pendingEventPropagations :=
             (pendingEventPropagations (items example_layout ! 0))(''stateChanged'' := Some True)\<rparr>],
        animFrames := [(0, ''stateChanged'',
          \<lparr>name_ev = ''stateChanged'', origin = 3, isPropagationStopped = False\<rparr>)]\<rparr>"

section \<open>Properties\<close>

subsection \<open>Traversals\<close>

lemma example_subtree:
  "subtree_at 4 example_layout 0 =
     Some (Subtree 0 (example_configs ! 0)
            [Subtree 1 (example_configs ! 1)
              [Subtree 2 (example_configs ! 2)
                [Subtree 3 (example_configs ! 3) []]]])"
  by (simp add: eval_nat_numeral valid_def example_layout_def example_items_def newItem_def
      example_configs_def)

lemma next_fn_descendants:
  "next_fn f t (r, v) = (r @ filter f (descendants t), v @ descendants t)"
  "next_loop f cs (r, v) =
     (r @ filter f (concat (map (\<lambda>c. c # descendants c) cs)),
      v @ concat (map (\<lambda>c. c # descendants c) cs))"
proof (induction f t "(r, v)" and f cs "(r, v)" arbitrary: r v and r v rule: next_fn_next_loop.induct)
  case (1 filter_fn n cfg cs)
  then show ?case by simp
next
  case (2 filter_fn)
  show ?case by simp
next
  case (3 filter_fn c cs result tested)
  then show ?case by simp
qed

lemma getItemsByFilter_filter: "getItemsByFilter t f = filter f (descendants t)"
  by (simp add: getItemsByFilter_def next_fn_descendants)

lemma testedByFilter_descendants: "testedByFilter t f = descendants t"
  by (simp add: testedByFilter_def next_fn_descendants)

lemma descendants_smaller: "d \<in> set (descendants t) \<Longrightarrow> size d < size t"
proof (induction t arbitrary: d)
  case (Subtree n cfg cs)
  from Subtree.prems obtain c where c: "c \<in> set cs" and d: "d = c \<or> d \<in> set (descendants c)"
    by auto
  from c have "size c < size (Subtree n cfg cs)"
    by (simp add: size_list_estimation' less_Suc_eq_le)
  moreover from d Subtree.IH[OF c] have "size d \<le> size c" by (auto intro: less_imp_le)
  ultimately show ?case by simp
qed

lemma receiver_not_descendant: "t \<notin> set (descendants t)"
  using descendants_smaller[of t t] by auto

text \<open>
  Claim C9. For every tree and every predicate, \<^verbatim>\<open>getItemsByFilter\<close> returns exactly
  the descendants of the receiver for which the predicate holds, in pre-order: the
  filter is applied to each child before the subtree of that child is entered, siblings
  in the order of \<^verbatim>\<open>contentItems\<close>. The receiver is never part of the result.
\<close>

theorem getItemsByFilter_preorder:
  "getItemsByFilter t f = filter f (descendants t)
   \<and> testedByFilter t f = descendants t
   \<and> t \<notin> set (getItemsByFilter t f)"
  by (simp add: getItemsByFilter_def testedByFilter_def next_fn_descendants receiver_not_descendant)

lemma callDownwards_bottomUp_trace:
  "callDownwards t fn fa True skipSelf =
     map (\<lambda>n. Invoke n fn (case fa of None \<Rightarrow> [] | Some a \<Rightarrow> a))
       (if skipSelf then butlast (postorder t) else postorder t)"
  "callDownwards_loop cs fn fa True =
     map (\<lambda>n. Invoke n fn (case fa of None \<Rightarrow> [] | Some a \<Rightarrow> a)) (concat (map postorder cs))"
proof (induction t fn fa "True" skipSelf and cs fn fa "True" rule: callDownwards_callDownwards_loop.induct)
  case (1 this cfg cs functionName functionArguments skipSelf)
  then show ?case by (simp add: butlast_append)
next
  case (2 functionName functionArguments)
  show ?case by simp
next
  case (3 c cs functionName functionArguments)
  then show ?case by simp
qed

lemma callDownwards_topDown_trace:
  "callDownwards t fn fa False skipSelf =
     (if skipSelf then drop 2 else (\<lambda>xs. xs))
       (concat (map (\<lambda>n. [Invoke n fn (case fa of None \<Rightarrow> [] | Some a \<Rightarrow> a),
                          Invoke n fn (case fa of None \<Rightarrow> [] | Some a \<Rightarrow> a)]) (preorder t)))"
  "callDownwards_loop cs fn fa False =
     concat (map (\<lambda>n. [Invoke n fn (case fa of None \<Rightarrow> [] | Some a \<Rightarrow> a),
                        Invoke n fn (case fa of None \<Rightarrow> [] | Some a \<Rightarrow> a)])
       (concat (map preorder cs)))"
proof (induction t fn fa "False" skipSelf and cs fn fa "False" rule: callDownwards_callDownwards_loop.induct)
  case (1 this cfg cs functionName functionArguments skipSelf)
  then show ?case by (simp add: Let_def)
next
  case (2 functionName functionArguments)
  show ?case by simp
next
  case (3 c cs functionName functionArguments)
  then show ?case by simp
qed

text \<open>
  Claim C2 says that \<^verbatim>\<open>callDownwards\<close> invokes the method exactly once on every node.
  Bottom-up it does: the receivers of the invocations are the nodes in post-order.
  Top-down it invokes the method twice on every node, the receiver first: on a single
  node, \<^verbatim>\<open>callDownwards('setSize', [], false, false)\<close> calls \<^verbatim>\<open>setSize\<close> two times.
\<close>

theorem callDownwards_topDown_invokes_twice:
  "callDownwards (Subtree n cfg []) ''setSize'' (Some []) False False
     = [Invoke n ''setSize'' [], Invoke n ''setSize'' []]
   \<and> map (\<lambda>c. case c of Invoke r f a \<Rightarrow> r) (callDownwards t fn fa False False)
     = concat (map (\<lambda>r. [r, r]) (preorder t))
   \<and> map (\<lambda>c. case c of Invoke r f a \<Rightarrow> r) (callDownwards t fn fa True False) = postorder t"
  by (simp add: callDownwards_topDown_trace callDownwards_bottomUp_trace map_concat comp_def)

subsection \<open>Ids\<close>

text \<open>
  Claim C6. On a fresh item (no id, or the empty string that the default table gives)
  \<^verbatim>\<open>hasId a\<close> is false; after \<^verbatim>\<open>addId a\<close> it is true; after \<^verbatim>\<open>addId b\<close> both are
  present; after \<^verbatim>\<open>removeId a\<close> only \<^verbatim>\<open>b\<close> is. \<^verbatim>\<open>addId\<close> changes nothing when the
  id is present; otherwise an absent id (one that the test \<^verbatim>\<open>!this.config.id\<close>
  accepts) becomes the string, a string becomes the sequence of the two, and a sequence
  is appended to.
\<close>

theorem id_operations:
  assumes fresh: "falsy (id_cfg fresh)" and ab: "a \<noteq> b" and a: "a \<noteq> []" and b: "b \<noteq> []"
  shows "\<not> hasId fresh a
    \<and> hasId (addId fresh a) a
    \<and> hasId (addId (addId fresh a) b) a \<and> hasId (addId (addId fresh a) b) b
    \<and> (\<exists>c. removeId (addId (addId fresh a) b) a = Inr c \<and> \<not> hasId c a \<and> hasId c b)
    \<and> (\<forall>cfg i. hasId cfg i \<longrightarrow> addId cfg i = cfg)
    \<and> (\<forall>cfg i. \<not> hasId cfg i \<longrightarrow>
          addId cfg i = cfg\<lparr>id_cfg :=
            (if falsy (id_cfg cfg) then IdString i
             else case id_cfg cfg of
                    IdString s \<Rightarrow> IdArray [s, i]
                  | IdArray xs \<Rightarrow> IdArray (xs @ [i])
                  | Undefined \<Rightarrow> Undefined)\<rparr>)"
proof -
  have 1: "\<not> hasId fresh a" using fresh by (simp add: hasId_def)
  have c1: "addId fresh a = fresh\<lparr>id_cfg := IdString a\<rparr>"
    using fresh by (simp add: addId_def hasId_def)
  have c2: "addId (addId fresh a) b = fresh\<lparr>id_cfg := IdArray [a, b]\<rparr>"
    unfolding c1 using a ab by (simp add: addId_def hasId_def falsy_def)
  have c3: "removeId (addId (addId fresh a) b) a = Inr (fresh\<lparr>id_cfg := IdArray [b]\<rparr>)"
    unfolding c2 using ab by (simp add: removeId_def hasId_def falsy_def splice_array_def)
  have 2: "hasId (addId fresh a) a"
    unfolding c1 using a by (simp add: hasId_def falsy_def)
  have 3: "hasId (addId (addId fresh a) b) a \<and> hasId (addId (addId fresh a) b) b"
    unfolding c2 using ab by (simp add: hasId_def falsy_def)
  have 4: "\<exists>c. removeId (addId (addId fresh a) b) a = Inr c \<and> \<not> hasId c a \<and> hasId c b"
    unfolding c3 using ab by (simp add: hasId_def falsy_def)
  have 5: "\<forall>cfg i. hasId cfg i \<longrightarrow> addId cfg i = cfg" by (simp add: addId_def)
  have 6: "\<forall>cfg i. \<not> hasId cfg i \<longrightarrow>
          addId cfg i = cfg\<lparr>id_cfg :=
            (if falsy (id_cfg cfg) then IdString i
             else case id_cfg cfg of
                    IdString s \<Rightarrow> IdArray [s, i]
                  | IdArray xs \<Rightarrow> IdArray (xs @ [i])
                  | Undefined \<Rightarrow> Undefined)\<rparr>"
    by (auto simp: addId_def falsy_def split: idValue.splits)
  from 1 2 3 4 5 6 show ?thesis by blast
qed

theorem id_operations_witness:
  "falsy (id_cfg defaults) \<and> ''a'' \<noteq> ''b''
   \<and> \<not> hasId defaults ''a''
   \<and> hasId (addId defaults ''a'') ''a''
   \<and> hasId (addId (addId defaults ''a'') ''b'') ''a''
   \<and> hasId (addId (addId defaults ''a'') ''b'') ''b''
   \<and> (\<exists>c. removeId (addId (addId defaults ''a'') ''b'') ''a'' = Inr c
          \<and> \<not> hasId c ''a'' \<and> hasId c ''b'')
   \<and> addId (addId defaults ''a'') ''a'' = addId defaults ''a''"
proof -
  have f: "falsy (id_cfg defaults)" by (simp add: defaults_def falsy_def)
  have ab: "''a'' \<noteq> ''b''" by simp
  have na: "''a'' \<noteq> []" and nb: "''b'' \<noteq> []" by simp_all
  note th = id_operations[OF f ab na nb]
  from th have "addId (addId defaults ''a'') ''a'' = addId defaults ''a''" by blast
  with th f ab show ?thesis by blast
qed

lemma addId_I4: "I4 (addId cfg i)"
  by (auto simp: addId_def I4_def hasId_def falsy_def indexOf_absent split: idValue.splits)

lemma removeId_I4:
  assumes "removeId cfg i = Inr cfg'"
  shows "I4 cfg' = (id_cfg cfg \<noteq> IdArray [i])"
proof (cases "id_cfg cfg")
  case Undefined
  with assms show ?thesis by (auto simp: removeId_def hasId_def falsy_def I4_def split: if_splits)
next
  case (IdString s)
  with assms show ?thesis by (auto simp: removeId_def hasId_def falsy_def I4_def split: if_splits)
next
  case (IdArray xs)
  with assms have mem: "i \<in> set xs"
    by (auto simp: removeId_def hasId_def falsy_def indexOf_absent split: if_splits)
  from indexOf_bound[OF mem] have b: "0 \<le> indexOf xs i" "nat (indexOf xs i) < length xs" by simp_all
  from assms IdArray mem have c: "id_cfg cfg' = IdArray (splice_array xs (indexOf xs i) 1 [])"
    by (auto simp: removeId_def hasId_def falsy_def indexOf_absent split: if_splits)
  have len: "Suc (length (splice_array xs (indexOf xs i) 1 [])) = length xs"
    using splice_delete1_length[OF b] by simp
  have "(splice_array xs (indexOf xs i) 1 [] \<noteq> []) = (xs \<noteq> [i])"
  proof
    assume "splice_array xs (indexOf xs i) 1 [] \<noteq> []"
    then have "0 < length (splice_array xs (indexOf xs i) 1 [])" by simp
    with len have "length xs \<noteq> 1" by linarith
    then show "xs \<noteq> [i]" by auto
  next
    assume ne: "xs \<noteq> [i]"
    have "length xs \<noteq> 1"
    proof
      assume "length xs = 1"
      then obtain y where "xs = [y]" by (cases xs) auto
      with mem ne show False by simp
    qed
    with len have "0 < length (splice_array xs (indexOf xs i) 1 [])" by linarith
    then show "splice_array xs (indexOf xs i) 1 [] \<noteq> []" by simp
  qed
  with c IdArray show ?thesis by (simp add: I4_def)
qed

text \<open>
  Claim C7 says that no id operation leaves an empty sequence. \<^verbatim>\<open>removeId\<close> of the
  only element of a one-element sequence does: the sequence is spliced and stays, empty.
\<close>

theorem removeId_empties_sequence:
  "I4 (defaults\<lparr>id_cfg := IdArray [''a'']\<rparr>)
   \<and> removeId (defaults\<lparr>id_cfg := IdArray [''a'']\<rparr>) ''a'' = Inr (defaults\<lparr>id_cfg := IdArray []\<rparr>)
   \<and> \<not> I4 (defaults\<lparr>id_cfg := IdArray []\<rparr>)"
  by (simp add: I4_def removeId_def hasId_def falsy_def splice_array_def)

lemma splice_remove1:
  "x \<in> set xs \<Longrightarrow> splice_array xs (indexOf xs x) (Suc 0) [] = remove1 x xs"
proof (induction xs)
  case Nil
  then show ?case by simp
next
  case (Cons y ys)
  show ?case
  proof (cases "y = x")
    case True
    then show ?thesis by (simp add: splice_array_def)
  next
    case False
    with Cons.prems have mem: "x \<in> set ys" by simp
    from indexOf_bound[OF mem] have b: "0 \<le> indexOf ys x" "nat (indexOf ys x) < length ys"
      by simp_all
    from b have b': "0 \<le> indexOf ys x + 1" "nat (indexOf ys x + 1) < length (y # ys)"
      by simp_all
    from mem have ne: "indexOf ys x \<noteq> - 1" by (simp add: indexOf_absent)
    have "splice_array (y # ys) (indexOf ys x + 1) (Suc 0) []
          = take (nat (indexOf ys x + 1)) (y # ys) @ drop (Suc (nat (indexOf ys x + 1))) (y # ys)"
      using b' by (rule splice_delete1)
    also have "nat (indexOf ys x + 1) = Suc (nat (indexOf ys x))" using b(1) by simp
    also have "take (Suc (nat (indexOf ys x))) (y # ys) @ drop (Suc (Suc (nat (indexOf ys x)))) (y # ys)
          = y # (take (nat (indexOf ys x)) ys @ drop (Suc (nat (indexOf ys x))) ys)" by simp
    also have "take (nat (indexOf ys x)) ys @ drop (Suc (nat (indexOf ys x))) ys
          = splice_array ys (indexOf ys x) (Suc 0) []"
      using b by (rule splice_delete1[symmetric])
    also have "\<dots> = remove1 x ys" using mem by (rule Cons.IH)
    finally show ?thesis using False ne by (simp add: Let_def)
  qed
qed

lemma addId_shape:
  "(\<exists>s. id_cfg (addId cfg i) = IdString s)
   \<or> (\<exists>xs. id_cfg (addId cfg i) = IdArray xs \<and> xs \<noteq> [])"
  by (auto simp: addId_def hasId_def falsy_def indexOf_absent split: idValue.splits)

lemma addId_sequence:
  "id_cfg cfg = IdArray xs \<Longrightarrow>
   addId cfg i = cfg\<lparr>id_cfg := IdArray (if i \<in> set xs then xs else xs @ [i])\<rparr>"
  by (simp add: addId_def hasId_def falsy_def indexOf_absent)

lemma removeId_result:
  assumes "removeId cfg i = Inr cfg'"
  shows "cfg' = cfg\<lparr>id_cfg := (case id_cfg cfg of
                                  IdArray xs \<Rightarrow> IdArray (remove1 i xs)
                                | _ \<Rightarrow> Undefined)\<rparr>"
proof (cases "id_cfg cfg")
  case Undefined
  with assms show ?thesis by (simp add: removeId_def hasId_def falsy_def)
next
  case (IdString s)
  with assms show ?thesis by (auto simp: removeId_def split: if_splits)
next
  case (IdArray xs)
  with assms have mem: "i \<in> set xs"
    by (auto simp: removeId_def hasId_def falsy_def indexOf_absent split: if_splits)
  from assms IdArray mem show ?thesis
    by (auto simp: removeId_def splice_remove1 split: if_splits)
qed

text \<open>
  Claim C7, as the code has it. \<^verbatim>\<open>addId\<close> always leaves a string or a sequence
  that is not empty, and a sequence stays a sequence: the id is appended unless it is
  there. A \<^verbatim>\<open>removeId\<close> that returns clears a string id to absent and takes the first
  occurrence of the id out of a sequence, which stays a sequence whatever is left: one
  element is not turned into a string, none is not turned into absent. So I4 holds
  after \<^verbatim>\<open>removeId\<close> unless the id was the one-element sequence of the removed
  string; on the empty sequence that is left \<^verbatim>\<open>hasId\<close> is false for every string.
\<close>

theorem I4_addId_removeId:
  "((\<exists>s. id_cfg (addId cfg i) = IdString s)
      \<or> (\<exists>xs. id_cfg (addId cfg i) = IdArray xs \<and> xs \<noteq> []))
   \<and> (\<forall>xs. id_cfg cfg = IdArray xs \<longrightarrow>
          addId cfg i = cfg\<lparr>id_cfg := IdArray (if i \<in> set xs then xs else xs @ [i])\<rparr>)
   \<and> (\<forall>cfg'. removeId cfg i = Inr cfg' \<longrightarrow>
          cfg' = cfg\<lparr>id_cfg := (case id_cfg cfg of
                                    IdArray xs \<Rightarrow> IdArray (remove1 i xs)
                                  | _ \<Rightarrow> Undefined)\<rparr>
          \<and> I4 cfg' = (id_cfg cfg \<noteq> IdArray [i]))
   \<and> (\<forall>s. \<not> hasId (cfg\<lparr>id_cfg := IdArray []\<rparr>) s)"
proof (intro conjI allI impI)
  show "(\<exists>s. id_cfg (addId cfg i) = IdString s)
      \<or> (\<exists>xs. id_cfg (addId cfg i) = IdArray xs \<and> xs \<noteq> [])"
    by (rule addId_shape)
next
  fix xs assume "id_cfg cfg = IdArray xs"
  then show "addId cfg i = cfg\<lparr>id_cfg := IdArray (if i \<in> set xs then xs else xs @ [i])\<rparr>"
    by (rule addId_sequence)
next
  fix cfg' assume r: "removeId cfg i = Inr cfg'"
  then show "cfg' = cfg\<lparr>id_cfg := (case id_cfg cfg of
                                    IdArray xs \<Rightarrow> IdArray (remove1 i xs)
                                  | _ \<Rightarrow> Undefined)\<rparr>"
    by (rule removeId_result)
  from r show "I4 cfg' = (id_cfg cfg \<noteq> IdArray [i])" by (rule removeId_I4)
next
  fix s show "\<not> hasId (cfg\<lparr>id_cfg := IdArray []\<rparr>) s"
    by (simp add: hasId_def falsy_def)
qed

theorem I4_addId_removeId_witness:
  "id_cfg (defaults\<lparr>id_cfg := IdArray [''a'', ''b'']\<rparr>) = IdArray [''a'', ''b'']
   \<and> removeId (defaults\<lparr>id_cfg := IdArray [''a'', ''b'']\<rparr>) ''a''
       = Inr (defaults\<lparr>id_cfg := IdArray [''b'']\<rparr>)
   \<and> I4 (defaults\<lparr>id_cfg := IdArray [''b'']\<rparr>)
   \<and> addId (defaults\<lparr>id_cfg := IdArray [''a'', ''b'']\<rparr>) ''c''
       = defaults\<lparr>id_cfg := IdArray [''a'', ''b'', ''c'']\<rparr>"
proof -
  let ?c = "defaults\<lparr>id_cfg := IdArray [''a'', ''b'']\<rparr>"
  have i: "id_cfg ?c = IdArray [''a'', ''b'']" by simp
  obtain c' where r: "removeId ?c ''a'' = Inr c'"
    by (simp add: removeId_def hasId_def falsy_def)
  from I4_addId_removeId[of ?c "''a''"] r
  have both: "c' = ?c\<lparr>id_cfg := (case id_cfg ?c of
                                      IdArray xs \<Rightarrow> IdArray (remove1 ''a'' xs)
                                    | _ \<Rightarrow> Undefined)\<rparr>
              \<and> I4 c' = (id_cfg ?c \<noteq> IdArray [''a''])"
    by blast
  from both have c': "c' = defaults\<lparr>id_cfg := IdArray [''b'']\<rparr>" by simp
  from both have "I4 c' = (id_cfg ?c \<noteq> IdArray [''a''])" by (rule conjunct2)
  then have i4: "I4 c'" by simp
  from I4_addId_removeId[of ?c "''c''"] i
  have "addId ?c ''c'' = ?c\<lparr>id_cfg := IdArray (if ''c'' \<in> set [''a'', ''b''] then [''a'', ''b'']
                                                  else [''a'', ''b''] @ [''c''])\<rparr>"
    by blast
  then have a: "addId ?c ''c'' = defaults\<lparr>id_cfg := IdArray [''a'', ''b'', ''c'']\<rparr>" by simp
  from r c' have r': "removeId ?c ''a'' = Inr (defaults\<lparr>id_cfg := IdArray [''b'']\<rparr>)" by simp
  have i4': "I4 (defaults\<lparr>id_cfg := IdArray [''b'']\<rparr>)" using i4 unfolding c' .
  show ?thesis by (intro conjI) (rule i r' i4' a)+
qed

text \<open>
  Claim C10. An item whose id is the empty string, the value of the default table,
  has no id for \<^verbatim>\<open>hasId\<close>, whatever the string asked for, the empty one included; and
  \<^verbatim>\<open>getItemsById\<close> with the empty string, called on an ancestor, returns the item.
\<close>

theorem empty_string_id:
  assumes "id_cfg (node_config n) = IdString ''''" and "n \<in> set (descendants a)"
  shows "(\<forall>s. \<not> hasId (node_config n) s)
    \<and> n \<in> set (getItemsById a '''')
    \<and> resolveDefaults_id None = IdString ''''"
  using assms
  by (simp add: hasId_def falsy_def getItemsById_def getItemsByFilter_filter
      resolveDefaults_id_def defaults_def)

theorem empty_string_id_witness:
  "id_cfg (node_config (Subtree 1 defaults [])) = IdString ''''
   \<and> Subtree 1 defaults [] \<in> set (descendants (Subtree 0 defaults [Subtree 1 defaults []]))
   \<and> \<not> hasId (node_config (Subtree 1 defaults [])) ''''
   \<and> Subtree 1 defaults [] \<in> set (getItemsById (Subtree 0 defaults [Subtree 1 defaults []]) '''')"
proof -
  have i: "id_cfg (node_config (Subtree 1 defaults [])) = IdString ''''"
    by (simp add: defaults_def)
  have d: "Subtree 1 defaults [] \<in> set (descendants (Subtree 0 defaults [Subtree 1 defaults []]))"
    by simp
  from empty_string_id[OF i d] i d show ?thesis by simp
qed

subsection \<open>Area\<close>

text \<open>
  Claim C8 says that \<^verbatim>\<open>getArea\<close> of an item with no surface is \<^verbatim>\<open>null\<close>. The code
  has no such branch: the helpers are called on the missing handle, and what they
  raise is what the call raises.
\<close>

theorem getArea_no_surface:
  "getArea getJQueryOffset getJQueryWidthAndHeight 0 (None :: int surfaceElement option) None
     = Inl TypeError
   \<and> getArea getJQueryOffset getJQueryWidthAndHeight 0 (None :: int surfaceElement option) None
     \<noteq> Inr None"
  by (simp add: getArea_def getJQueryOffset_def)

text \<open>
  Claim C8, as the code has it. For a surface of width W and height H at the offset
  (ox, oy), the item's own or the one passed, the result is the record with the
  corners (ox, oy) and (ox + W, oy + H), the surface W * H and the item. Whatever the
  helpers do, the result is never \<^verbatim>\<open>null\<close>.
\<close>

theorem getArea_of_surface:
  "getArea getJQueryOffset getJQueryWidthAndHeight this (Some e) None
     = Inr (Some \<lparr> x1 = at_left e, y1 = at_top e,
                   x2 = at_left e + extent_width e, y2 = at_top e + extent_height e,
                   surface = extent_width e * extent_height e, contentItem_area = this \<rparr>)
   \<and> getArea getJQueryOffset getJQueryWidthAndHeight this own (Some e)
     = Inr (Some \<lparr> x1 = at_left e, y1 = at_top e,
                   x2 = at_left e + extent_width e, y2 = at_top e + extent_height e,
                   surface = extent_width e * extent_height e, contentItem_area = this \<rparr>)
   \<and> getArea off wh this own el \<noteq> Inr None"
  by (simp add: getArea_def getJQueryOffset_def getJQueryWidthAndHeight_def Let_def
      split: sum.splits option.splits)

subsection \<open>Mutation engine\<close>

lemmas example_defs =
  example_layout_def example_items_def example_configs_def newItem_def defaults_def

lemmas store_defs =
  valid_def perform_def set_contentItems_def set_content_def set_parent_def init_def

lemma splice_delete1_nonempty:
  assumes "c \<in> set xs"
  shows "(splice_array xs (indexOf xs c) (Suc 0) [] \<noteq> []) = (xs \<noteq> [c])"
proof -
  have "(splice_array xs (indexOf xs c) (Suc 0) [] \<noteq> []) =
        (0 < length (splice_array xs (indexOf xs c) (Suc 0) []))" by simp
  also have "\<dots> = (xs \<noteq> [c])"
  proof -
  from indexOf_bound[OF assms]
  have b: "0 \<le> indexOf xs c" "nat (indexOf xs c) < length xs" by simp_all
  have len: "Suc (length (splice_array xs (indexOf xs c) (Suc 0) [])) = length xs"
    using b by (rule splice_delete1_length)
  show ?thesis
  proof
    assume "0 < length (splice_array xs (indexOf xs c) (Suc 0) [])"
    with len have "length xs \<noteq> 1" by linarith
    then show "xs \<noteq> [c]" by auto
  next
    assume ne: "xs \<noteq> [c]"
    have "length xs \<noteq> 1"
    proof
      assume "length xs = 1"
      then obtain y where "xs = [y]" by (cases xs) auto
      with assms ne show False by simp
    qed
    with len show "0 < length (splice_array xs (indexOf xs c) (Suc 0) [])" by linarith
  qed
  qed
  finally show ?thesis .
qed

lemma splice_single: "splice_array [c] 0 (Suc 0) [] = []"
  by (simp add: splice_array_def)

lemma removeChild_unfold:
  assumes v: "valid s this"
    and mem: "c \<in> set (contentItems (items s ! this))"
    and cs: "content (configs s ! config (items s ! this)) = Some cs"
  shows "removeChild s this c keepChild =
     (if contentItems (items s ! this) \<noteq> [c]
      then Inr (perform (detached s this c keepChild cs) [CallDownwards this ''setSize'' False False])
      else if instanceofRoot (items s ! this) \<or> \<not> isClosable (configs s ! config (items s ! this))
      then Inr (detached s this c keepChild cs)
      else (case parent (items s ! this) of
              None \<Rightarrow> Inl (TypeError, detached s this c keepChild cs)
            | Some p \<Rightarrow> removeChild (detached s this c keepChild cs) p this False))"
proof -
  from mem have found: "indexOf (contentItems (items s ! this)) c \<noteq> - 1"
    by (simp add: indexOf_absent)
  have nth: "contentItems (items s ! this) ! nat (indexOf (contentItems (items s ! this)) c) = c"
    using mem by (rule indexOf_nth)
  note ne = splice_delete1_nonempty[OF mem]
  from v have lt: "this < length (items s)" "config (items s ! this) < length (configs s)"
    by (simp_all add: valid_def)
  show ?thesis
    apply (subst removeChild.simps)
    using v found nth ne lt cs
    apply (simp add: Let_def detached_def perform_def set_contentItems_def set_content_def
        splice_single split: option.splits)
    done
qed

lemma removeChild_invalid:
  "\<not> valid s this \<Longrightarrow> removeChild s this c keepChild = Inl (NoSuchObject, s)"
  by (subst removeChild.simps) simp

lemma removeChild_unknown:
  "valid s this \<Longrightarrow> c \<notin> set (contentItems (items s ! this)) \<Longrightarrow>
   removeChild s this c keepChild = Inl (UnknownContentItem, s)"
  by (subst removeChild.simps) (simp add: indexOf_absent)

lemma removeChild_no_content:
  assumes v: "valid s this"
    and mem: "c \<in> set (contentItems (items s ! this))"
    and cs: "content (configs s ! config (items s ! this)) = None"
  shows "\<exists>s'. removeChild s this c keepChild = Inl (TypeError, s')
           \<and> effects s' = effects s @ (if keepChild then [] else [Destroy c, CallDownwards c ''_$destroy'' True True])"
proof -
  from mem have found: "indexOf (contentItems (items s ! this)) c \<noteq> - 1"
    by (simp add: indexOf_absent)
  have nth: "contentItems (items s ! this) ! nat (indexOf (contentItems (items s ! this)) c) = c"
    using mem by (rule indexOf_nth)
  from v have lt: "this < length (items s)" by (simp add: valid_def)
  show ?thesis
    apply (subst removeChild.simps)
    using v found nth lt cs
    apply (simp add: Let_def perform_def set_contentItems_def)
    done
qed

lemma entries_detached:
  assumes "valid s this" and "c \<in> set (contentItems (items s ! this))"
  shows "entries (detached s this c keepChild cs) < entries s"
proof -
  from assms(2) have found: "indexOf (contentItems (items s ! this)) c \<noteq> - 1"
    by (simp add: indexOf_absent)
  show ?thesis
  proof (cases keepChild)
    case True
    from removeChild_decreases[OF assms(1) found refl, of "config (items s ! this)"
        "splice_array cs (indexOf (contentItems (items s ! this)) c) 1 []"]
    show ?thesis using True by (simp add: detached_def Let_def)
  next
    case False
    have same: "items (perform s [Destroy c, CallDownwards c ''_$destroy'' True True]) = items s"
      by (rule items_perform)
    from removeChild_decreases[OF assms(1) found same, of "config (items s ! this)"
        "splice_array cs (indexOf (contentItems (items s ! this)) c) 1 []"]
    show ?thesis using False by (simp add: detached_def Let_def items_perform)
  qed
qed

lemma detached_effects:
  "effects (detached s this c keepChild cs) =
     effects s @ (if keepChild then [] else [Destroy c, CallDownwards c ''_$destroy'' True True])"
  by (simp add: detached_def Let_def perform_def set_contentItems_def set_content_def)

lemma detached_instanceofRoot:
  "this < length (items s) \<Longrightarrow>
   instanceofRoot (items (detached s this c keepChild cs) ! r) = instanceofRoot (items s ! r)"
  by (cases "r = this")
     (simp_all add: detached_def Let_def perform_def set_contentItems_def set_content_def)

lemma destroys_intro:
  "effects s' = effects s @ es \<Longrightarrow> (\<forall>r. Destroy r \<in> set es \<longrightarrow> Q r) \<Longrightarrow>
   \<exists>es. effects s' = effects s @ es \<and> (\<forall>r. Destroy r \<in> set es \<longrightarrow> Q r)"
  by blast

lemma removeChild_destroys:
  "\<exists>es. effects (state_of (removeChild s this c keepChild)) = effects s @ es
      \<and> (\<forall>r. Destroy r \<in> set es \<longrightarrow> r = c \<or> \<not> instanceofRoot (items s ! r))"
proof (induction "entries s" arbitrary: s this c keepChild rule: less_induct)
  case less
  show ?case
  proof (cases "valid s this \<and> c \<in> set (contentItems (items s ! this))")
    case False
    have "state_of (removeChild s this c keepChild) = s"
    proof (cases "valid s this")
      case True
      with False show ?thesis by (simp add: removeChild_unknown state_of_def)
    next
      case False
      then show ?thesis by (simp add: removeChild_invalid state_of_def)
    qed
    then show ?thesis by simp
  next
    case True
    then have v: "valid s this" and mem: "c \<in> set (contentItems (items s ! this))" by simp_all
    from v have lt: "this < length (items s)" by (simp add: valid_def)
    show ?thesis
    proof (cases "content (configs s ! config (items s ! this))")
      case None
      from removeChild_no_content[OF v mem None, of keepChild]
      show ?thesis by (auto simp: state_of_def)
    next
      case (Some cs)
      let ?d = "detached s this c keepChild cs"
      note unf = removeChild_unfold[OF v mem Some, of keepChild]
      have pre: "\<forall>r. Destroy r \<in> set (if keepChild then [] else [Destroy c, CallDownwards c ''_$destroy'' True True])
                   \<longrightarrow> r = c \<or> \<not> instanceofRoot (items s ! r)"
        by simp
      show ?thesis
      proof (cases "contentItems (items s ! this) \<noteq> [c]")
        case True
        with unf have "effects (state_of (removeChild s this c keepChild)) =
            effects s @ ((if keepChild then [] else [Destroy c, CallDownwards c ''_$destroy'' True True])
                         @ [CallDownwards this ''setSize'' False False])"
          by (simp add: state_of_def perform_def detached_effects)
        then show ?thesis by (rule destroys_intro) (use pre in auto)
      next
        case single: False
        show ?thesis
        proof (cases "instanceofRoot (items s ! this) \<or> \<not> isClosable (configs s ! config (items s ! this))")
          case True
          with unf single have "effects (state_of (removeChild s this c keepChild)) =
              effects s @ (if keepChild then [] else [Destroy c, CallDownwards c ''_$destroy'' True True])"
            by (simp add: state_of_def detached_effects)
          then show ?thesis by (rule destroys_intro) (use pre in auto)
        next
          case closable: False
          show ?thesis
          proof (cases "parent (items s ! this)")
            case None
            with unf single closable have "effects (state_of (removeChild s this c keepChild)) =
                effects s @ (if keepChild then [] else [Destroy c, CallDownwards c ''_$destroy'' True True])"
              by (simp add: state_of_def detached_effects)
            then show ?thesis by (rule destroys_intro) (use pre in auto)
          next
            case (Some p)
            with unf single closable
            have eq: "removeChild s this c keepChild = removeChild ?d p this False" by simp
            from less[OF entries_detached[OF v mem], of keepChild cs p this False]
            obtain es where es: "effects (state_of (removeChild ?d p this False)) = effects ?d @ es"
              and d: "\<forall>r. Destroy r \<in> set es \<longrightarrow> r = this \<or> \<not> instanceofRoot (items ?d ! r)"
              by blast
            from d closable have d': "\<forall>r. Destroy r \<in> set es \<longrightarrow> \<not> instanceofRoot (items s ! r)"
              by (auto simp: detached_instanceofRoot[OF lt])
            have "effects (state_of (removeChild s this c keepChild)) =
                effects s @ ((if keepChild then [] else [Destroy c, CallDownwards c ''_$destroy'' True True]) @ es)"
              by (simp add: eq es detached_effects)
            then show ?thesis by (rule destroys_intro) (use pre d' in auto)
          qed
        qed
      qed
    qed
  qed
qed

text \<open>
  Claim C3. When \<^verbatim>\<open>removeChild\<close> takes the last child out of a closable item that is
  not a \<^verbatim>\<open>Root\<close>, it goes on to remove that item from its own parent, by the same
  function, and so upwards; it stops, and returns, at an item that keeps a child, at a
  \<^verbatim>\<open>Root\<close> or at an item that is not closable. No \<^verbatim>\<open>Root\<close> is destroyed on the
  way: \<^verbatim>\<open>_$destroy\<close> is only called on the item passed to the first call and on
  items that are not a \<^verbatim>\<open>Root\<close>.
\<close>

theorem removeChild_cascade:
  assumes "valid s this"
    and "c \<in> set (contentItems (items s ! this))"
    and "content (configs s ! config (items s ! this)) = Some cs"
  shows "removeChild s this c keepChild =
     (if contentItems (items s ! this) \<noteq> [c]
      then Inr (perform (detached s this c keepChild cs) [CallDownwards this ''setSize'' False False])
      else if instanceofRoot (items s ! this) \<or> \<not> isClosable (configs s ! config (items s ! this))
      then Inr (detached s this c keepChild cs)
      else (case parent (items s ! this) of
              None \<Rightarrow> Inl (TypeError, detached s this c keepChild cs)
            | Some p \<Rightarrow> removeChild (detached s this c keepChild cs) p this False))
   \<and> (\<exists>es. effects (state_of (removeChild s this c keepChild)) = effects s @ es
         \<and> (\<forall>r. Destroy r \<in> set es \<longrightarrow> r = c \<or> \<not> instanceofRoot (items s ! r)))"
  using removeChild_unfold[OF assms, of keepChild] removeChild_destroys[of s this c keepChild]
  by (rule conjI)

text \<open>
  The example of the specification: removing the only component of the stack removes
  the stack and then the row; the root stays, with no child left.
\<close>

lemma removeChild_example:
  "\<exists>s'. removeChild example_layout 2 3 False = Inr s'
     \<and> map contentItems (items s') = [[], [], [], [], []]
     \<and> map content (configs s') = [Some [], Some [], Some [], Some [], Some []]
     \<and> effects s' =
         [Destroy 3, CallDownwards 3 ''_$destroy'' True True,
          Destroy 2, CallDownwards 2 ''_$destroy'' True True,
          Destroy 1, CallDownwards 1 ''_$destroy'' True True]"
  by (simp add: removeChild.simps example_defs store_defs Let_def splice_array_def)

theorem removeChild_cascade_witness:
  "valid example_layout 2
   \<and> 3 \<in> set (contentItems (items example_layout ! 2))
   \<and> content (configs example_layout ! config (items example_layout ! 2)) = Some [3]
   \<and> removeChild example_layout 2 3 False
       = removeChild (detached example_layout 2 3 False [3]) 1 2 False
   \<and> contentItems (items (detached example_layout 2 3 False [3]) ! 2) = []
   \<and> contentItems (items (detached example_layout 2 3 False [3]) ! 1) = [2]"
proof -
  have v: "valid example_layout 2" by (simp add: example_defs valid_def)
  have m: "3 \<in> set (contentItems (items example_layout ! 2))" by (simp add: example_defs)
  have c: "content (configs example_layout ! config (items example_layout ! 2)) = Some [3]"
    by (simp add: example_defs)
  have d: "contentItems (items (detached example_layout 2 3 False [3]) ! 2) = []
     \<and> contentItems (items (detached example_layout 2 3 False [3]) ! 1) = [2]"
    by (simp add: detached_def example_defs store_defs Let_def splice_array_def)
  from removeChild_cascade[OF v m c, of False]
  have "removeChild example_layout 2 3 False
       = removeChild (detached example_layout 2 3 False [3]) 1 2 False"
    by (simp add: example_defs)
  with v m c d show ?thesis by simp
qed

text \<open>
  Claim C5. When \<^verbatim>\<open>removeChild\<close>, \<^verbatim>\<open>replaceChild\<close> or \<^verbatim>\<open>removeId\<close> finds that
  the item is not a child, or that the id is not there, the exception leaves the store
  (the config, for \<^verbatim>\<open>removeId\<close>) exactly as the call found it: \<^verbatim>\<open>contentItems\<close>,
  \<^verbatim>\<open>config.content\<close>, \<^verbatim>\<open>parent\<close> and the id are untouched.
\<close>

theorem validation_error_before_mutation:
  "(valid s this \<and> indexOf (contentItems (items s ! this)) c = - 1
      \<longrightarrow> removeChild s this c keepChild = Inl (UnknownContentItem, s))
   \<and> (valid s this \<and> valid s oldChild \<and> valid s newChild
        \<and> indexOf (contentItems (items s ! this)) oldChild = - 1
      \<longrightarrow> replaceChild s this oldChild newChild destroyOldChild = Inl (OldChildNotChild, s))
   \<and> (\<not> hasId cfg i \<longrightarrow> removeId cfg i = Inl (IdNotFound, cfg))"
  by (simp add: removeChild_unknown indexOf_absent replaceChild_def removeId_def)

theorem validation_error_before_mutation_witness:
  "valid example_layout 1 \<and> valid example_layout 3 \<and> valid example_layout 4
   \<and> indexOf (contentItems (items example_layout ! 1)) 3 = - 1
   \<and> \<not> hasId defaults ''x''
   \<and> removeChild example_layout 1 3 False = Inl (UnknownContentItem, example_layout)
   \<and> replaceChild example_layout 1 3 4 True = Inl (OldChildNotChild, example_layout)
   \<and> removeId defaults ''x'' = Inl (IdNotFound, defaults)"
proof -
  have v: "valid example_layout 1 \<and> valid example_layout 3 \<and> valid example_layout 4"
    by (simp add: example_defs valid_def)
  have i: "indexOf (contentItems (items example_layout ! 1)) 3 = - 1"
    by (simp add: example_defs)
  have h: "\<not> hasId defaults ''x''" by (simp add: hasId_def falsy_def defaults_def)
  from validation_error_before_mutation[of example_layout 1 3 False 3 4 True defaults "''x''"] v i h
  show ?thesis by simp
qed

lemma replaceChild_configs:
  "configs (state_of (replaceChild s this oldChild newChild destroyOldChild)) = configs s"
  by (simp add: replaceChild_def state_of_def Let_def store_defs)

text \<open>
  \<^verbatim>\<open>addChild\<close> and \<^verbatim>\<open>removeChild\<close> splice \<^verbatim>\<open>contentItems\<close> and
  \<^verbatim>\<open>config.content\<close> at the same index: they keep I3, in a store where every item
  has a config object of its own.
\<close>

lemma nth_list_update_field:
  assumes "f y = f (xs ! i)"
  shows "f (xs[i := y] ! r) = f (xs ! r)"
proof (cases "r = i")
  case True
  show ?thesis
  proof (cases "i < length xs")
    case True
    with \<open>r = i\<close> assms show ?thesis by simp
  next
    case False
    then have "xs[i := y] = xs" by (simp add: list_update_beyond)
    then show ?thesis by simp
  qed
next
  case False
  then show ?thesis by simp
qed

lemma splice_array_map:
  "map f (splice_array xs i d ins) = splice_array (map f xs) i d (map f ins)"
  by (simp add: splice_array_def Let_def take_map drop_map)

lemma I3_cong:
  assumes "I3 s"
    and len: "length (items s') = length (items s)"
    and cfg: "\<And>r. config (items s' ! r) = config (items s ! r)"
    and kids: "\<And>r. r < length (items s) \<Longrightarrow> contentItems (items s' ! r) = contentItems (items s ! r)"
    and cont: "map content (configs s') = map content (configs s)"
  shows "I3 s'"
proof -
  from cont have clen: "length (configs s') = length (configs s)"
    by (metis length_map)
  have "I3_at s' (items s' ! r)" if r: "r < length (items s')" for r
  proof -
    from r len have r0: "r < length (items s)" by simp
    with \<open>I3 s\<close> have a: "I3_at s (items s ! r)" by (simp add: I3_def list_all_length)
    then have lt: "config (items s ! r) < length (configs s)" by (simp add: I3_at_def)
    from cont lt have c: "content (configs s' ! config (items s ! r)) = content (configs s ! config (items s ! r))"
      by (metis clen nth_map)
    from a show ?thesis
      by (simp add: I3_at_def cfg kids[OF r0] c clen split: option.splits)
  qed
  then show ?thesis by (simp add: I3_def list_all_length)
qed

lemma I3_local:
  assumes inv: "I3 s" and own: "own_configs s" and v: "valid s this"
    and len: "length (items s') = length (items s)"
    and cfg: "\<And>r. config (items s' ! r) = config (items s ! r)"
    and kids: "\<And>r. r < length (items s) \<Longrightarrow>
                 contentItems (items s' ! r) = (if r = this then new else contentItems (items s ! r))"
    and cont: "configs s' = (configs s)[config (items s ! this) :=
                 (configs s ! config (items s ! this))\<lparr>content := Some (map (\<lambda>c. config (items s ! c)) new)\<rparr>]"
  shows "I3 s'"
proof -
  from v have t: "this < length (items s)" and tc: "config (items s ! this) < length (configs s)"
    by (simp_all add: valid_def)
  have "I3_at s' (items s' ! r)" if r: "r < length (items s')" for r
  proof (cases "r = this")
    case True
    with t tc show ?thesis
      by (simp add: I3_at_def cfg kids cont)
  next
    case False
    from r len have r0: "r < length (items s)" by simp
    with inv have a: "I3_at s (items s ! r)" by (simp add: I3_def list_all_length)
    from own r0 t False have ne: "config (items s ! r) \<noteq> config (items s ! this)"
      by (auto simp: own_configs_def distinct_conv_nth)
    from a ne False r0 show ?thesis
      by (simp add: I3_at_def cfg kids cont split: option.splits)
  qed
  then show ?thesis by (simp add: I3_def list_all_length)
qed

lemma addChild_result:
  assumes "valid s this" and "valid s c"
  shows "\<exists>s'. addChild s this c index_opt = Inr s'
     \<and> length (items s') = length (items s)
     \<and> (\<forall>r. config (items s' ! r) = config (items s ! r))
     \<and> (\<forall>r. r < length (items s) \<longrightarrow> contentItems (items s' ! r) =
            (if r = this
             then splice_array (contentItems (items s ! this))
                    (case index_opt of None \<Rightarrow> int (length (contentItems (items s ! this))) | Some i \<Rightarrow> i)
                    0 [c]
             else contentItems (items s ! r)))
     \<and> configs s' = (configs s)[config (items s ! this) :=
           (configs s ! config (items s ! this))\<lparr>content := Some
              (splice_array
                 (case content (configs s ! config (items s ! this)) of None \<Rightarrow> [] | Some cs \<Rightarrow> cs)
                 (case index_opt of None \<Rightarrow> int (length (contentItems (items s ! this))) | Some i \<Rightarrow> i)
                 0 [config (items s ! c)])\<rparr>]
     \<and> parent (items s' ! c) = Some this"
  using assms
  by (simp add: addChild_def store_defs Let_def nth_list_update nth_list_update_field)

lemma addChild_I3:
  assumes inv: "I3 s" and own: "own_configs s" and v: "valid s this" and vc: "valid s c"
  shows "\<exists>s'. addChild s this c index_opt = Inr s' \<and> I3 s' \<and> own_configs s'
           \<and> parent (items s' ! c) = Some this"
proof -
  let ?i = "case index_opt of None \<Rightarrow> int (length (contentItems (items s ! this))) | Some i \<Rightarrow> i"
  let ?new = "splice_array (contentItems (items s ! this)) ?i 0 [c]"
  from addChild_result[OF v vc, of index_opt] obtain s' where
    r: "addChild s this c index_opt = Inr s'"
    and len: "length (items s') = length (items s)"
    and cfg: "\<And>r. config (items s' ! r) = config (items s ! r)"
    and kids: "\<And>r. r < length (items s) \<Longrightarrow> contentItems (items s' ! r) =
            (if r = this then ?new else contentItems (items s ! r))"
    and cont: "configs s' = (configs s)[config (items s ! this) :=
           (configs s ! config (items s ! this))\<lparr>content := Some
              (splice_array
                 (case content (configs s ! config (items s ! this)) of None \<Rightarrow> [] | Some cs \<Rightarrow> cs)
                 ?i 0 [config (items s ! c)])\<rparr>]"
    and par: "parent (items s' ! c) = Some this"
    by blast
  from v have t: "this < length (items s)" by (simp add: valid_def)
  with inv have "I3_at s (items s ! this)" by (simp add: I3_def list_all_length)
  then have old: "(case content (configs s ! config (items s ! this)) of None \<Rightarrow> [] | Some cs \<Rightarrow> cs)
      = map (\<lambda>c. config (items s ! c)) (contentItems (items s ! this))"
    by (simp add: I3_at_def split: option.splits)
  have cont': "configs s' = (configs s)[config (items s ! this) :=
      (configs s ! config (items s ! this))\<lparr>content := Some (map (\<lambda>c. config (items s ! c)) ?new)\<rparr>]"
    by (simp add: cont old splice_array_map)
  have "I3 s'"
    using inv own v len cfg kids cont' by (rule I3_local)
  moreover have "own_configs s'"
  proof -
    have "map config (items s') = map config (items s)"
      by (rule nth_equalityI) (simp_all add: len cfg)
    with own show ?thesis by (simp add: own_configs_def)
  qed
  ultimately show ?thesis using r par by blast
qed

lemma I3_at_perform: "I3_at (perform s es) = I3_at s"
  by (rule ext) (simp add: I3_at_def perform_def split: option.splits)

lemma I3_perform: "I3 (perform s es) = I3 s"
  by (simp add: I3_def I3_at_perform items_perform)

lemma own_configs_perform: "own_configs (perform s es) = own_configs s"
  by (simp add: own_configs_def perform_def)

lemma detached_I3:
  assumes inv: "I3 s" and own: "own_configs s" and v: "valid s this"
    and cs: "content (configs s ! config (items s ! this)) = Some cs"
  shows "I3 (detached s this c keepChild cs) \<and> own_configs (detached s this c keepChild cs)"
proof -
  let ?d = "detached s this c keepChild cs"
  let ?new = "splice_array (contentItems (items s ! this)) (indexOf (contentItems (items s ! this)) c) 1 []"
  from v have t: "this < length (items s)" by (simp add: valid_def)
  with inv have "I3_at s (items s ! this)" by (simp add: I3_def list_all_length)
  with cs have old: "cs = map (\<lambda>c. config (items s ! c)) (contentItems (items s ! this))"
    by (simp add: I3_at_def)
  have len: "length (items ?d) = length (items s)"
    by (simp add: detached_def Let_def store_defs)
  have cfg: "config (items ?d ! r) = config (items s ! r)" for r
    by (simp add: detached_def Let_def store_defs nth_list_update_field)
  have kids: "contentItems (items ?d ! r) = (if r = this then ?new else contentItems (items s ! r))"
    if "r < length (items s)" for r
    using that by (simp add: detached_def Let_def store_defs nth_list_update)
  have cont: "configs ?d = (configs s)[config (items s ! this) :=
      (configs s ! config (items s ! this))\<lparr>content := Some (map (\<lambda>c. config (items s ! c)) ?new)\<rparr>]"
    by (simp add: detached_def Let_def store_defs old splice_array_map)
  have "I3 ?d"
    using inv own v len cfg kids cont by (rule I3_local)
  moreover have "own_configs ?d"
  proof -
    have "map config (items ?d) = map config (items s)"
      by (rule nth_equalityI) (simp_all add: len cfg)
    with own show ?thesis by (simp add: own_configs_def)
  qed
  ultimately show ?thesis ..
qed

lemma removeChild_I3:
  assumes "I3 s" and "own_configs s"
  shows "I3 (state_of (removeChild s this c keepChild))
       \<and> own_configs (state_of (removeChild s this c keepChild))"
  using assms
proof (induction "entries s" arbitrary: s this c keepChild rule: less_induct)
  case less
  show ?case
  proof (cases "valid s this")
    case False
    with less.prems show ?thesis by (simp add: removeChild_invalid state_of_def)
  next
    case v: True
    show ?thesis
    proof (cases "c \<in> set (contentItems (items s ! this))")
      case False
      with v less.prems show ?thesis by (simp add: removeChild_unknown state_of_def)
    next
      case mem: True
      from v have t: "this < length (items s)" by (simp add: valid_def)
      with less.prems(1) have at: "I3_at s (items s ! this)" by (simp add: I3_def list_all_length)
      with mem obtain cs where cs: "content (configs s ! config (items s ! this)) = Some cs"
        by (cases "content (configs s ! config (items s ! this))") (auto simp: I3_at_def)
      let ?d = "detached s this c keepChild cs"
      from detached_I3[OF less.prems v cs, of c keepChild]
      have d: "I3 ?d" "own_configs ?d" by simp_all
      note unf = removeChild_unfold[OF v mem cs, of keepChild]
      show ?thesis
      proof (cases "contentItems (items s ! this) \<noteq> [c]")
        case True
        with unf d show ?thesis by (simp add: state_of_def I3_perform own_configs_perform)
      next
        case single: False
        show ?thesis
        proof (cases "instanceofRoot (items s ! this) \<or> \<not> isClosable (configs s ! config (items s ! this))")
          case True
          with unf single d show ?thesis by (simp add: state_of_def)
        next
          case closable: False
          show ?thesis
          proof (cases "parent (items s ! this)")
            case None
            with unf single closable d show ?thesis by (simp add: state_of_def)
          next
            case (Some p)
            with unf single closable
            have eq: "removeChild s this c keepChild = removeChild ?d p this False" by simp
            from less.hyps[OF entries_detached[OF v mem] d, of p this False]
            show ?thesis by (simp add: eq)
          qed
        qed
      qed
    qed
  qed
qed

lemma example_layout_well_formed: "I3 example_layout \<and> own_configs example_layout"
  by (simp add: I3_def I3_at_def own_configs_def example_defs)

text \<open>
  Claim C1 says that I3 holds after every \<^verbatim>\<open>replaceChild\<close>. In the example layout,
  where I3 holds, replacing the component 3 of the stack by the component 4 puts 4 into
  \<^verbatim>\<open>contentItems\<close> and leaves the config of 3 in \<^verbatim>\<open>config.content\<close>: I3 is lost.
  \<^verbatim>\<open>replaceChild\<close> never writes to a config object.
\<close>

theorem replaceChild_leaves_config_content:
  "I3 example_layout
   \<and> (\<exists>s'. replaceChild example_layout 2 3 4 False = Inr s'
          \<and> contentItems (items s' ! 2) = [4]
          \<and> content (configs s' ! config (items s' ! 2)) = Some [3]
          \<and> config (items s' ! 4) = 4
          \<and> \<not> I3 s')
   \<and> configs (state_of (replaceChild s this oldChild newChild destroyOldChild)) = configs s"
proof -
  have a: "I3 example_layout"
    by (simp add: I3_def I3_at_def example_defs)
  have b: "\<exists>s'. replaceChild example_layout 2 3 4 False = Inr s'
          \<and> contentItems (items s' ! 2) = [4]
          \<and> content (configs s' ! config (items s' ! 2)) = Some [3]
          \<and> config (items s' ! 4) = 4
          \<and> \<not> I3 s'"
    by (simp add: replaceChild_def I3_def I3_at_def example_defs store_defs Let_def)
  from a b replaceChild_configs show ?thesis by blast
qed

subsection \<open>Events\<close>

lemma bubblesTo_top_valid: "bubblesTo s this t \<Longrightarrow> t < length (items s)"
  by (induction rule: bubblesTo.induct) simp_all

lemma map_list_update_same:
  assumes "f y = f (xs ! i)"
  shows "map f (xs[i := y]) = map f xs"
proof (cases "i < length xs")
  case True
  have "map f (xs[i := y]) = (map f xs)[i := f y]" by (rule map_update)
  also have "\<dots> = (map f xs)[i := map f xs ! i]" using assms True by simp
  also have "\<dots> = map f xs" by (rule list_update_id)
  finally show ?thesis .
next
  case False
  then show ?thesis by (simp add: list_update_beyond)
qed

lemma links_nth:
  assumes "links s' = links s" and "r < length (items s)"
  shows "r < length (items s')"
    and "parent (items s' ! r) = parent (items s ! r)"
    and "isRoot (items s' ! r) = isRoot (items s ! r)"
    and "isInitialised (items s' ! r) = isInitialised (items s ! r)"
proof -
  from assms(1) have "length (links s') = length (links s)" by simp
  then have len: "length (items s') = length (items s)" by (simp add: links_def)
  with assms(2) show r': "r < length (items s')" by simp
  from assms(1) have "links s' ! r = links s ! r" by simp
  with assms(2) r'
  have eq: "(parent (items s' ! r), isRoot (items s' ! r), isInitialised (items s' ! r))
          = (parent (items s ! r), isRoot (items s ! r), isInitialised (items s ! r))"
    by (simp add: links_def)
  from eq show "parent (items s' ! r) = parent (items s ! r)" by simp
  from eq show "isRoot (items s' ! r) = isRoot (items s ! r)" by simp
  from eq show "isInitialised (items s' ! r) = isInitialised (items s ! r)" by simp
qed

lemma bubblesTo_same_links:
  assumes "bubblesTo s this t" and "links s' = links s"
  shows "bubblesTo s' this t"
  using assms
proof (induction rule: bubblesTo.induct)
  case (top this s)
  note n = links_nth[OF top.prems top.hyps(1)]
  show ?case
  proof (rule bubblesTo.top)
    show "this < length (items s')" by (rule n(1))
    show "isInitialised (items s' ! this)" using top.hyps(2) n(4) by simp
    show "isRoot (items s' ! this) \<or> parent (items s' ! this) = None"
      using top.hyps(3) n(2,3) by simp
  qed
next
  case (up this s p t)
  note n = links_nth[OF up.prems up.hyps(1)]
  show ?case
  proof (rule bubblesTo.up)
    show "this < length (items s')" by (rule n(1))
    show "isInitialised (items s' ! this)" using up.hyps(2) n(4) by simp
    show "\<not> isRoot (items s' ! this)" using up.hyps(3) n(3) by simp
    show "parent (items s' ! this) = Some p" using up.hyps(4) n(2) by simp
    show "bubblesTo s' p t" using up.prems by (rule up.IH)
  qed
qed

lemma links_schedule:
  "links (scheduleEventPropagationToLayoutManager s t' name e) = links s"
  by (simp add: scheduleEventPropagationToLayoutManager_def links_def map_list_update_same)

lemma propagateEvent_bubbles:
  assumes "bubblesTo s this t" and "\<not> isPropagationStopped e"
  shows "propagateEvent s this name (BubblingEvent e)
         = Some (Inr (scheduleEventPropagationToLayoutManager s t name e))"
  using assms
proof (induction rule: bubblesTo.induct)
  case (top this s)
  then show ?case
    by (subst propagateEvent.simps) (auto split: option.splits)
next
  case (up this s p t)
  then show ?case
    by (subst propagateEvent.simps) simp
qed

lemma emit_throttled_first:
  assumes b: "bubblesTo s this t"
    and th: "indexOf (throttledEvents (items s ! t)) name \<noteq> - 1"
    and np: "pendingEventPropagations (items s ! t) name \<noteq> Some True"
  shows "emitBubblingEvent s this name =
     Some (Inr (s\<lparr>items := (items s)[t := (items s ! t)
                    \<lparr>pendingEventPropagations :=
                       (pendingEventPropagations (items s ! t))(name := Some True)\<rparr>],
                 animFrames := animFrames s @
                   [(t, name, \<lparr>name_ev = name, origin = this, isPropagationStopped = False\<rparr>)]\<rparr>))"
  using th np
  by (simp add: emitBubblingEvent_def propagateEvent_bubbles[OF b]
      scheduleEventPropagationToLayoutManager_def)

lemma emit_throttled_pending:
  assumes b: "bubblesTo s this t"
    and th: "indexOf (throttledEvents (items s ! t)) name \<noteq> - 1"
    and p: "pendingEventPropagations (items s ! t) name = Some True"
  shows "emitBubblingEvent s this name = Some (Inr s)"
  using th p
  by (simp add: emitBubblingEvent_def propagateEvent_bubbles[OF b]
      scheduleEventPropagationToLayoutManager_def)

lemma emitAll_pending:
  assumes b: "bubblesTo s this t"
    and th: "indexOf (throttledEvents (items s ! t)) name \<noteq> - 1"
    and p: "pendingEventPropagations (items s ! t) name = Some True"
  shows "emitAll s this (replicate n name) = Some (Inr s)"
  by (induction n) (simp_all add: emit_throttled_pending[OF b th p])

lemma emitAll_throttled:
  assumes b: "bubblesTo s this t"
    and th: "indexOf (throttledEvents (items s ! t)) name \<noteq> - 1"
    and np: "pendingEventPropagations (items s ! t) name \<noteq> Some True"
  shows "emitAll s this (replicate (Suc n) name) =
     Some (Inr (s\<lparr>items := (items s)[t := (items s ! t)
                    \<lparr>pendingEventPropagations :=
                       (pendingEventPropagations (items s ! t))(name := Some True)\<rparr>],
                 animFrames := animFrames s @
                   [(t, name, \<lparr>name_ev = name, origin = this, isPropagationStopped = False\<rparr>)]\<rparr>))"
    (is "_ = Some (Inr ?s1)")
proof -
  from b have lt: "t < length (items s)" by (rule bubblesTo_top_valid)
  have b1: "bubblesTo ?s1 this t"
    using b by (rule bubblesTo_same_links) (simp add: links_def map_list_update_same)
  have th1: "indexOf (throttledEvents (items ?s1 ! t)) name \<noteq> - 1"
    using th lt by simp
  have p1: "pendingEventPropagations (items ?s1 ! t) name = Some True"
    using lt by simp
  show ?thesis
    by (simp add: emit_throttled_first[OF b th np] emitAll_pending[OF b1 th1 p1])
qed

lemma emitted_foldl:
  "layoutManager_emitted
     (foldl (\<lambda>s' (this, name, event). propagateEventToLayoutManager s' this name event) s0 q)
   = layoutManager_emitted s0 @ map (\<lambda>(this, name, event). (name, Event event)) q"
  by (induction q arbitrary: s0) (auto simp: propagateEventToLayoutManager_def)

lemma emitted_animationFrame:
  "layoutManager_emitted (animationFrame s)
   = layoutManager_emitted s @ map (\<lambda>(this, name, event). (name, Event event)) (animFrames s)"
  by (simp add: animationFrame_def emitted_foldl)

lemma emit_immediate:
  assumes b: "bubblesTo s this t"
    and th: "indexOf (throttledEvents (items s ! t)) name = - 1"
  shows "emitBubblingEvent s this name =
     Some (Inr (s\<lparr>layoutManager_emitted := layoutManager_emitted s @ [(name, Origin this)]\<rparr>))"
  using th
  by (simp add: emitBubblingEvent_def propagateEvent_bubbles[OF b]
      scheduleEventPropagationToLayoutManager_def)

lemma emitAll_immediate:
  assumes "bubblesTo s this t"
    and "list_all (\<lambda>name. indexOf (throttledEvents (items s ! t)) name = - 1) names"
  shows "emitAll s this names =
     Some (Inr (s\<lparr>layoutManager_emitted :=
                   layoutManager_emitted s @ map (\<lambda>name. (name, Origin this)) names\<rparr>))"
  using assms
proof (induction names arbitrary: s)
  case Nil
  show ?case by simp
next
  case (Cons name names)
  let ?s1 = "s\<lparr>layoutManager_emitted := layoutManager_emitted s @ [(name, Origin this)]\<rparr>"
  from Cons.prems have th: "indexOf (throttledEvents (items s ! t)) name = - 1" by simp
  have b1: "bubblesTo ?s1 this t"
    using Cons.prems(1) by (rule bubblesTo_same_links) (simp add: links_def)
  have rest: "list_all (\<lambda>name. indexOf (throttledEvents (items ?s1 ! t)) name = - 1) names"
    using Cons.prems(2) by simp
  show ?case
    by (simp add: emit_immediate[OF Cons.prems(1) th] Cons.IH[OF b1 rest])
qed

lemma links_callback: "links (propagateEventToLayoutManager s this name e) = links s"
  by (simp add: propagateEventToLayoutManager_def links_def map_list_update_same)

lemma throttled_callback:
  "map throttledEvents (items (propagateEventToLayoutManager s this name e))
   = map throttledEvents (items s)"
  by (simp add: propagateEventToLayoutManager_def map_list_update_same)

lemma frame_foldl_frame:
  "links (foldl (\<lambda>s' (this, name, event). propagateEventToLayoutManager s' this name event) s0 q)
     = links s0
   \<and> map throttledEvents
        (items (foldl (\<lambda>s' (this, name, event). propagateEventToLayoutManager s' this name event) s0 q))
     = map throttledEvents (items s0)
   \<and> animFrames (foldl (\<lambda>s' (this, name, event). propagateEventToLayoutManager s' this name event) s0 q)
     = animFrames s0"
proof (induction q arbitrary: s0)
  case Nil
  show ?case by simp
next
  case (Cons cb q)
  obtain this name e where cb: "cb = (this, name, e)" by (cases cb)
  from Cons.IH[of "propagateEventToLayoutManager s0 this name e"]
  show ?case
    by (simp add: cb links_callback throttled_callback)
       (simp add: propagateEventToLayoutManager_def)
qed

lemma frame_foldl_reset:
  assumes "(t, name, e) \<in> set q" and "t < length (items s0)"
  shows "pendingEventPropagations
           (items (foldl (\<lambda>s' (this, name, event). propagateEventToLayoutManager s' this name event) s0 q) ! t)
           name = Some False"
  using assms(1)
proof (induction q rule: rev_induct)
  case Nil
  then show ?case by simp
next
  case (snoc cb q)
  let ?p = "foldl (\<lambda>s' (this, name, event). propagateEventToLayoutManager s' this name event) s0 q"
  obtain t' name' e' where cb: "cb = (t', name', e')" by (cases cb)
  from frame_foldl_frame[of s0 q] have "length (links ?p) = length (links s0)" by simp
  with assms(2) have lt: "t < length (items ?p)" by (simp add: links_def)
  show ?case
  proof (cases "t' = t \<and> name' = name")
    case True
    with lt show ?thesis by (simp add: cb propagateEventToLayoutManager_def)
  next
    case False
    with snoc.prems cb have "(t, name, e) \<in> set q" by auto
    then have ih: "pendingEventPropagations (items ?p ! t) name = Some False" by (rule snoc.IH)
    show ?thesis
    proof (cases "t' = t")
      case True
      with False have "name' \<noteq> name" by simp
      with True lt ih show ?thesis by (simp add: cb propagateEventToLayoutManager_def)
    next
      case False
      with ih show ?thesis by (simp add: cb propagateEventToLayoutManager_def)
    qed
  qed
qed

lemma animationFrame_frame:
  "links (animationFrame s) = links s
   \<and> map throttledEvents (items (animationFrame s)) = map throttledEvents (items s)
   \<and> animFrames (animationFrame s) = []"
  using frame_foldl_frame[of "s\<lparr>animFrames := []\<rparr>" "animFrames s"]
  by (simp add: animationFrame_def links_def)

lemma animationFrame_reset:
  assumes "(t, name, e) \<in> set (animFrames s)" and "t < length (items s)"
  shows "pendingEventPropagations (items (animationFrame s) ! t) name = Some False"
  unfolding animationFrame_def
  by (rule frame_foldl_reset[OF assms(1)]) (simp add: assms(2))

lemma animationFrame_throttled:
  assumes "t < length (items s)"
  shows "throttledEvents (items (animationFrame s) ! t) = throttledEvents (items s ! t)"
proof -
  from animationFrame_frame[of s]
  have m: "map throttledEvents (items (animationFrame s)) = map throttledEvents (items s)" by simp
  then have "length (items (animationFrame s)) = length (items s)" by (metis length_map)
  with assms m show ?thesis by (metis nth_map)
qed

lemma example_bubbles: "bubblesTo example_layout 3 0"
proof -
  have 0: "bubblesTo example_layout 0 0"
    by (rule bubblesTo.top)
       (simp_all add: example_layout_def example_items_def newItem_def)
  have 1: "bubblesTo example_layout 1 0"
    by (rule bubblesTo.up[OF _ _ _ _ 0])
       (simp_all add: example_layout_def example_items_def newItem_def)
  have 2: "bubblesTo example_layout 2 0"
    by (rule bubblesTo.up[OF _ _ _ _ 1])
       (simp_all add: example_layout_def example_items_def newItem_def)
  show ?thesis
    by (rule bubblesTo.up[OF _ _ _ _ 2])
       (simp_all add: example_layout_def example_items_def newItem_def)
qed

lemma example_bubbles_2: "bubblesTo example_layout 2 0"
proof -
  have 0: "bubblesTo example_layout 0 0"
    by (rule bubblesTo.top)
       (simp_all add: example_layout_def example_items_def newItem_def)
  have 1: "bubblesTo example_layout 1 0"
    by (rule bubblesTo.up[OF _ _ _ _ 0])
       (simp_all add: example_layout_def example_items_def newItem_def)
  show ?thesis
    by (rule bubblesTo.up[OF _ _ _ _ 1])
       (simp_all add: example_layout_def example_items_def newItem_def)
qed

lemma example_pending_links: "links example_pending = links example_layout"
  by (simp add: example_pending_def links_def map_list_update_same)

lemma example_pending_facts:
  "indexOf (throttledEvents (items example_pending ! 0)) ''stateChanged'' \<noteq> - 1"
  "pendingEventPropagations (items example_pending ! 0) ''stateChanged'' = Some True"
  "layoutManager_emitted example_pending = []"
  "animFrames example_pending = [(0, ''stateChanged'',
          \<lparr>name_ev = ''stateChanged'', origin = 3, isPropagationStopped = False\<rparr>)]"
  by (simp_all add: example_pending_def example_layout_def example_items_def newItem_def)

lemma example_layout_facts:
  "indexOf (throttledEvents (items example_layout ! 0)) ''stateChanged'' \<noteq> - 1"
  "pendingEventPropagations (items example_layout ! 0) ''stateChanged'' \<noteq> Some True"
  "layoutManager_emitted example_layout = []"
  "animFrames example_layout = []"
  by (simp_all add: example_layout_def example_items_def newItem_def)

text \<open>
  Claim C4 says that a burst of \<^verbatim>\<open>stateChanged\<close> at one item brings one delivery
  for that item. The flag that suppresses the repetitions is kept at the item where
  the bubbling ends, not at the item that emits: once the component 3 has emitted
  \<^verbatim>\<open>stateChanged\<close>, a burst of five at the stack 2 in the same window changes
  nothing, and the frame delivers the event of 3 alone.
\<close>

theorem burst_after_other_item_swallowed:
  "emitAll example_layout 3 [''stateChanged''] = Some (Inr example_pending)
   \<and> emitAll example_pending 2 (replicate 5 ''stateChanged'') = Some (Inr example_pending)
   \<and> layoutManager_emitted (animationFrame example_pending) =
       [(''stateChanged'',
         Event \<lparr>name_ev = ''stateChanged'', origin = 3, isPropagationStopped = False\<rparr>)]"
proof (intro conjI)
  from emitAll_throttled[OF example_bubbles example_layout_facts(1,2), of 0]
  show "emitAll example_layout 3 [''stateChanged''] = Some (Inr example_pending)"
    by (simp add: example_pending_def example_layout_facts)
next
  have b: "bubblesTo example_pending 2 0"
    using example_bubbles_2 example_pending_links by (rule bubblesTo_same_links)
  show "emitAll example_pending 2 (replicate 5 ''stateChanged'') = Some (Inr example_pending)"
    by (rule emitAll_pending[OF b example_pending_facts(1,2)])
next
  show "layoutManager_emitted (animationFrame example_pending) =
       [(''stateChanged'',
         Event \<lparr>name_ev = ''stateChanged'', origin = 3, isPropagationStopped = False\<rparr>)]"
    by (simp add: emitted_animationFrame example_pending_facts)
qed

text \<open>
  Claim C4, as the code has it. Let the events of an item reach the item \<^verbatim>\<open>t\<close> that
  hands them to the layout manager. Throttled names are coalesced for each such
  \<^verbatim>\<open>t\<close> and name. A burst of N > 0 emissions of a throttled name, begun with no
  propagation of that name pending at \<^verbatim>\<open>t\<close>, delivers nothing by itself and schedules
  one callback; the animation frame that follows delivers exactly one event more than
  it would have without the burst, resets the flag and empties the queue, so that the
  next burst is treated alike. A burst begun while a propagation of that name is
  pending at \<^verbatim>\<open>t\<close>, from whichever item below \<^verbatim>\<open>t\<close>, changes nothing; the frame that
  runs the pending callback resets the flag. Names that are not throttled are
  delivered at once, one delivery for each emission, in the order of the calls.
\<close>

theorem coalesced_per_top_item:
  assumes "bubblesTo s this t"
  shows "(indexOf (throttledEvents (items s ! t)) name \<noteq> - 1
          \<and> pendingEventPropagations (items s ! t) name \<noteq> Some True \<and> 0 < N
        \<longrightarrow> (\<exists>s'. emitAll s this (replicate N name) = Some (Inr s')
               \<and> layoutManager_emitted s' = layoutManager_emitted s
               \<and> animFrames s' = animFrames s @
                   [(t, name, \<lparr>name_ev = name, origin = this, isPropagationStopped = False\<rparr>)]
               \<and> layoutManager_emitted (animationFrame s') =
                   layoutManager_emitted (animationFrame s) @
                   [(name, Event \<lparr>name_ev = name, origin = this, isPropagationStopped = False\<rparr>)]
               \<and> pendingEventPropagations (items (animationFrame s') ! t) name = Some False
               \<and> animFrames (animationFrame s') = []
               \<and> bubblesTo (animationFrame s') this t
               \<and> throttledEvents (items (animationFrame s') ! t) = throttledEvents (items s ! t)))
    \<and> (indexOf (throttledEvents (items s ! t)) name \<noteq> - 1
          \<and> pendingEventPropagations (items s ! t) name = Some True
        \<longrightarrow> emitAll s this (replicate N name) = Some (Inr s)
            \<and> (\<forall>e. (t, name, e) \<in> set (animFrames s) \<longrightarrow>
                  pendingEventPropagations (items (animationFrame s) ! t) name = Some False))
    \<and> (list_all (\<lambda>name. indexOf (throttledEvents (items s ! t)) name = - 1) names
        \<longrightarrow> (\<exists>s'. emitAll s this names = Some (Inr s')
               \<and> layoutManager_emitted s' =
                   layoutManager_emitted s @ map (\<lambda>name. (name, Origin this)) names
               \<and> animFrames s' = animFrames s))"
proof (intro conjI impI allI)
  assume h: "indexOf (throttledEvents (items s ! t)) name \<noteq> - 1
          \<and> pendingEventPropagations (items s ! t) name \<noteq> Some True \<and> 0 < N"
  then obtain n where N: "N = Suc n" by (cases N) auto
  let ?ev = "\<lparr>name_ev = name, origin = this, isPropagationStopped = False\<rparr>"
  let ?s1 = "s\<lparr>items := (items s)[t := (items s ! t)
                    \<lparr>pendingEventPropagations :=
                       (pendingEventPropagations (items s ! t))(name := Some True)\<rparr>],
                 animFrames := animFrames s @ [(t, name, ?ev)]\<rparr>"
  from h have e: "emitAll s this (replicate N name) = Some (Inr ?s1)"
    unfolding N by (intro emitAll_throttled[OF assms]) simp_all
  from assms have lt: "t < length (items s)" by (rule bubblesTo_top_valid)
  then have lt1: "t < length (items ?s1)" by simp
  have l1: "links ?s1 = links s" by (simp add: links_def map_list_update_same)
  have b1: "bubblesTo ?s1 this t" using assms l1 by (rule bubblesTo_same_links)
  have 1: "layoutManager_emitted ?s1 = layoutManager_emitted s" by simp
  have 2: "animFrames ?s1 = animFrames s @ [(t, name, ?ev)]" by simp
  have 3: "layoutManager_emitted (animationFrame ?s1) =
             layoutManager_emitted (animationFrame s) @ [(name, Event ?ev)]"
    by (simp add: emitted_animationFrame)
  have 4: "pendingEventPropagations (items (animationFrame ?s1) ! t) name = Some False"
    by (rule animationFrame_reset[where e = ?ev]) (simp_all add: lt)
  have 5: "animFrames (animationFrame ?s1) = []"
    using animationFrame_frame[of ?s1] by simp
  have 6: "bubblesTo (animationFrame ?s1) this t"
    using b1 animationFrame_frame[of ?s1] by (intro bubblesTo_same_links[OF b1]) simp
  have 7: "throttledEvents (items (animationFrame ?s1) ! t) = throttledEvents (items s ! t)"
    using animationFrame_throttled[OF lt1] lt by simp
  from e 1 2 3 4 5 6 7
  show "\<exists>s'. emitAll s this (replicate N name) = Some (Inr s')
               \<and> layoutManager_emitted s' = layoutManager_emitted s
               \<and> animFrames s' = animFrames s @ [(t, name, ?ev)]
               \<and> layoutManager_emitted (animationFrame s') =
                   layoutManager_emitted (animationFrame s) @ [(name, Event ?ev)]
               \<and> pendingEventPropagations (items (animationFrame s') ! t) name = Some False
               \<and> animFrames (animationFrame s') = []
               \<and> bubblesTo (animationFrame s') this t
               \<and> throttledEvents (items (animationFrame s') ! t) = throttledEvents (items s ! t)"
    by (intro exI[of _ ?s1] conjI)
next
  assume h: "indexOf (throttledEvents (items s ! t)) name \<noteq> - 1
          \<and> pendingEventPropagations (items s ! t) name = Some True"
  then show "emitAll s this (replicate N name) = Some (Inr s)"
    by (intro emitAll_pending[OF assms]) simp_all
next
  fix e
  assume "(t, name, e) \<in> set (animFrames s)"
  then show "pendingEventPropagations (items (animationFrame s) ! t) name = Some False"
    using bubblesTo_top_valid[OF assms] by (rule animationFrame_reset)
next
  assume "list_all (\<lambda>name. indexOf (throttledEvents (items s ! t)) name = - 1) names"
  from emitAll_immediate[OF assms this]
  show "\<exists>s'. emitAll s this names = Some (Inr s')
               \<and> layoutManager_emitted s' =
                   layoutManager_emitted s @ map (\<lambda>name. (name, Origin this)) names
               \<and> animFrames s' = animFrames s"
    by simp
qed

theorem coalesced_per_top_item_witness:
  "bubblesTo example_layout 3 0
   \<and> indexOf (throttledEvents (items example_layout ! 0)) ''stateChanged'' \<noteq> - 1
   \<and> pendingEventPropagations (items example_layout ! 0) ''stateChanged'' \<noteq> Some True
   \<and> list_all (\<lambda>name. indexOf (throttledEvents (items example_layout ! 0)) name = - 1)
        [''itemCreated'', ''titleChanged'']
   \<and> (\<exists>s'. emitAll example_layout 3 (replicate 3 ''stateChanged'') = Some (Inr s')
          \<and> layoutManager_emitted s' = []
          \<and> layoutManager_emitted (animationFrame s') =
              [(''stateChanged'',
                Event \<lparr>name_ev = ''stateChanged'', origin = 3, isPropagationStopped = False\<rparr>)]
          \<and> pendingEventPropagations (items (animationFrame s') ! 0) ''stateChanged'' = Some False)
   \<and> (\<exists>s'. emitAll example_layout 3 [''itemCreated'', ''titleChanged''] = Some (Inr s')
          \<and> layoutManager_emitted s' = [(''itemCreated'', Origin 3), (''titleChanged'', Origin 3)])
   \<and> bubblesTo example_pending 2 0
   \<and> pendingEventPropagations (items example_pending ! 0) ''stateChanged'' = Some True
   \<and> emitAll example_pending 2 (replicate 5 ''stateChanged'') = Some (Inr example_pending)
   \<and> pendingEventPropagations (items (animationFrame example_pending) ! 0) ''stateChanged''
       = Some False"
proof -
  note th = example_layout_facts(1)
  note np = example_layout_facts(2)
  have im: "list_all (\<lambda>name. indexOf (throttledEvents (items example_layout ! 0)) name = - 1)
        [''itemCreated'', ''titleChanged'']"
    by (simp add: example_layout_def example_items_def newItem_def)
  have a0: "layoutManager_emitted (animationFrame example_layout) = []"
    by (simp add: emitted_animationFrame example_layout_facts)
  note w = coalesced_per_top_item[OF example_bubbles, of "''stateChanged''" 3
      "[''itemCreated'', ''titleChanged'']"]
  have n: "0 < (3::nat)" by simp
  from w[THEN conjunct1, THEN mp, OF conjI[OF th conjI[OF np n]]] obtain s1 where
    s1: "emitAll example_layout 3 (replicate 3 ''stateChanged'') = Some (Inr s1)"
      "layoutManager_emitted s1 = layoutManager_emitted example_layout"
      "layoutManager_emitted (animationFrame s1) =
         layoutManager_emitted (animationFrame example_layout) @
         [(''stateChanged'',
           Event \<lparr>name_ev = ''stateChanged'', origin = 3, isPropagationStopped = False\<rparr>)]"
      "pendingEventPropagations (items (animationFrame s1) ! 0) ''stateChanged'' = Some False"
    by (elim exE conjE)
  from w[THEN conjunct2, THEN conjunct2, THEN mp, OF im] obtain s2 where
    s2: "emitAll example_layout 3 [''itemCreated'', ''titleChanged''] = Some (Inr s2)"
      "layoutManager_emitted s2 =
         layoutManager_emitted example_layout @
         map (\<lambda>name. (name, Origin 3)) [''itemCreated'', ''titleChanged'']"
    by (elim exE conjE)
  from s1 have r1:
    "\<exists>s'. emitAll example_layout 3 (replicate 3 ''stateChanged'') = Some (Inr s')
          \<and> layoutManager_emitted s' = []
          \<and> layoutManager_emitted (animationFrame s') =
              [(''stateChanged'',
                Event \<lparr>name_ev = ''stateChanged'', origin = 3, isPropagationStopped = False\<rparr>)]
          \<and> pendingEventPropagations (items (animationFrame s') ! 0) ''stateChanged'' = Some False"
    by (intro exI[of _ s1]) (simp add: example_layout_facts a0)
  from s2 have r2:
    "\<exists>s'. emitAll example_layout 3 [''itemCreated'', ''titleChanged''] = Some (Inr s')
          \<and> layoutManager_emitted s' = [(''itemCreated'', Origin 3), (''titleChanged'', Origin 3)]"
    by (intro exI[of _ s2]) (simp add: example_layout_facts)
  have b2: "bubblesTo example_pending 2 0"
    using example_bubbles_2 example_pending_links by (rule bubblesTo_same_links)
  note p2 = example_pending_facts(2)
  note w2 = coalesced_per_top_item[OF b2, of "''stateChanged''" 5 "[]",
      THEN conjunct2, THEN conjunct1, THEN mp, OF conjI[OF example_pending_facts(1) p2]]
  from w2 have r3: "emitAll example_pending 2 (replicate 5 ''stateChanged'') = Some (Inr example_pending)"
    by (rule conjunct1)
  have mem: "(0, ''stateChanged'',
       \<lparr>name_ev = ''stateChanged'', origin = 3, isPropagationStopped = False\<rparr>)
     \<in> set (animFrames example_pending)"
    by (simp add: example_pending_facts)
  from w2[THEN conjunct2, THEN spec, THEN mp, OF mem]
  have r4: "pendingEventPropagations (items (animationFrame example_pending) ! 0) ''stateChanged''
       = Some False" .
  show ?thesis
    by (intro conjI) (rule example_bubbles th np im r1 r2 b2 p2 r3 r4)+
qed

end
